theory Spec2Isabelle
  imports Main "HOL-Library.AList"
begin

section \<open>JavaScript numbers\<close>

text \<open>
  The numbers of the source are IEEE 754 doubles. The ones that occur in the scheduler
  are integers (a clock reading, a decimal value, a product or sum of such), the two
  infinities and, for completeness of the operations, \<open>NaN\<close>. \<open>Num n\<close> is the double
  whose value is the integer \<open>n\<close>; the two zeros are not told apart, as nothing in the
  source divides.
\<close>

datatype number = Num int | Infinity | MinusInfinity | NaN

text \<open>
  \<open>round_double n\<close> is the double nearest to the integer \<open>n\<close>, ties to the even
  mantissa: below \<open>2 ^ 53\<close> every integer is a double; from there on the 53 leading bits
  are kept (\<open>round_at q\<close> rounds to a multiple of the unit \<open>q\<close> of the binade, which
  \<open>ilog2\<close> finds), and what rounds to \<open>2 ^ 1024\<close> or more is infinite.
\<close>

function ilog2 :: "int \<Rightarrow> nat" where
  "ilog2 n = (if n < 2 then 0 else Suc (ilog2 (n div 2)))"
  by pat_completeness auto
termination
  by (relation "measure nat") auto

definition round_at :: "int \<Rightarrow> int \<Rightarrow> int" where
  "round_at q a =
     (let m = a div q;
          r = a mod q
      in (if q < 2 * r \<or> (2 * r = q \<and> odd m) then m + 1 else m) * q)"

definition round_mag :: "int \<Rightarrow> int" where
  "round_mag a = (if a < 2 ^ 53 then a else round_at (2 ^ (ilog2 a - 52)) a)"

definition pack :: "int \<Rightarrow> int \<Rightarrow> number" where
  "pack n v =
     (if 2 ^ 1024 \<le> v then (if n < 0 then MinusInfinity else Infinity)
      else Num (if n < 0 then - v else v))"

definition round_double :: "int \<Rightarrow> number" where
  "round_double n = pack n (round_mag \<bar>n\<bar>)"

declare ilog2.simps [simp del]

text \<open>
  \<^verbatim>\<open>+\<close> and \<^verbatim>\<open>*\<close> on numbers: the exact sum or product of two doubles, rounded once;
  the cases of infinite operands and \<open>NaN\<close> as IEEE 754 has them.
\<close>

fun js_add :: "number \<Rightarrow> number \<Rightarrow> number" where
  "js_add NaN y = NaN"
| "js_add x NaN = NaN"
| "js_add Infinity MinusInfinity = NaN"
| "js_add MinusInfinity Infinity = NaN"
| "js_add Infinity y = Infinity"
| "js_add x Infinity = Infinity"
| "js_add MinusInfinity y = MinusInfinity"
| "js_add x MinusInfinity = MinusInfinity"
| "js_add (Num a) (Num b) = round_double (a + b)"

definition negate :: "number \<Rightarrow> number" where
  "negate x = (case x of Num a \<Rightarrow> Num (- a) | Infinity \<Rightarrow> MinusInfinity
     | MinusInfinity \<Rightarrow> Infinity | NaN \<Rightarrow> NaN)"

fun js_mul :: "number \<Rightarrow> number \<Rightarrow> number" where
  "js_mul NaN y = NaN"
| "js_mul x NaN = NaN"
| "js_mul (Num a) (Num b) = round_double (a * b)"
| "js_mul (Num a) y = (if a = 0 then NaN else if 0 < a then y else negate y)"
| "js_mul x (Num b) = (if b = 0 then NaN else if 0 < b then x else negate x)"
| "js_mul x y = (if x = y then Infinity else MinusInfinity)"

definition nonnegative :: "number \<Rightarrow> bool" where
  "nonnegative x = (case x of Num a \<Rightarrow> 0 \<le> a | Infinity \<Rightarrow> True | _ \<Rightarrow> False)"

section \<open>The interval function\<close>

text \<open>
  \<^verbatim>\<open>parseSchedule\<close> (scheduler.ts, lines 160 to 178) matches its argument against
  \<^verbatim>\<open>/^(\d+)(m|h|d)?$/\<close>, reads the first group with \<^verbatim>\<open>parseInt\<close> and multiplies by
  the unit. A schedule is a \<open>string\<close>; a character outside ASCII is a sequence of bytes
  none of which is a digit or a unit letter, as in the source no such character matches
  \<^verbatim>\<open>\d\<close> or a unit.
\<close>

definition isDigit :: "char \<Rightarrow> bool" where
  "isDigit c \<longleftrightarrow> c \<in> set ''0123456789''"

definition digitVal :: "char \<Rightarrow> int" where
  "digitVal c = int (of_char c) - 48"

text \<open>
  \<^verbatim>\<open>parseInt(match[1])\<close>. The argument is the first group, a non-empty string of decimal
  digits, so the sign, white space, radix prefixes and the \<open>NaN\<close> result of \<^verbatim>\<open>parseInt\<close>
  do not arise: the result is the number for the decimal value of the leading digits.
  Node reads all the digits and rounds once, which is what \<open>round_double\<close> of the exact
  value does (ECMAScript also allows an implementation to read the digits after the
  20th as zeros).
\<close>

definition parseInt :: "string \<Rightarrow> number" where
  "parseInt s = round_double (foldl (\<lambda>n c. 10 * n + digitVal c) 0 (takeWhile isDigit s))"

definition isUnit :: "string \<Rightarrow> bool" where
  "isUnit r \<longleftrightarrow> r = ''m'' \<or> r = ''h'' \<or> r = ''d''"

text \<open>
  The match, as a backtracking matcher runs this pattern. \<^verbatim>\<open>\d+\<close> is greedy: it first takes
  the longest run of digits at the start of the input and gives digits back one at a time.
  For a run of \<open>k\<close> digits the optional group \<^verbatim>\<open>(m|h|d)?\<close> is tried first with a unit
  letter, which must be followed by the end of the input, and then empty, where the end of
  the input must follow the digits. The result holds the two groups; the second is
  \<open>None\<close> when the group did not take part (\<open>undefined\<close> in the source).
\<close>

fun backtrack :: "nat \<Rightarrow> string \<Rightarrow> (string \<times> string option) option" where
  "backtrack 0 s = None"
| "backtrack (Suc k) s =
     (let rest = drop (Suc k) s in
      if isUnit rest then Some (take (Suc k) s, Some rest)
      else if rest = [] then Some (take (Suc k) s, None)
      else backtrack k s)"

definition match_schedule :: "string \<Rightarrow> (string \<times> string option) option" where
  "match_schedule s = backtrack (length (takeWhile isDigit s)) s"

text \<open>
  The \<^verbatim>\<open>switch\<close> is kept with its four branches; \<^verbatim>\<open>match[2] || 'm'\<close> is the inner
  \<open>case\<close>. The products associate to the left, as \<^verbatim>\<open>value * 60 * 1000\<close> does, and each
  is rounded.
\<close>

definition parseSchedule :: "string \<Rightarrow> number" where
  "parseSchedule sched =
     (case match_schedule sched of
        None \<Rightarrow> Num 60000
      | Some (g1, g2) \<Rightarrow>
          (let val = parseInt g1;
               unit = (case g2 of None \<Rightarrow> ''m'' | Some u \<Rightarrow> u)
           in if unit = ''m'' then js_mul (js_mul val (Num 60)) (Num 1000)
              else if unit = ''h'' then js_mul (js_mul (js_mul val (Num 60)) (Num 60)) (Num 1000)
              else if unit = ''d''
                then js_mul (js_mul (js_mul (js_mul val (Num 24)) (Num 60)) (Num 60)) (Num 1000)
              else js_mul (js_mul val (Num 60)) (Num 1000)))"

section \<open>Jobs, the registry and the runtime\<close>

text \<open>
  \<^verbatim>\<open>JobStatus\<close> and \<^verbatim>\<open>ScheduledJob\<close> are the declarations of core/types. The field
  \<^verbatim>\<open>id\<close> is named \<open>jobId\<close> here, since \<open>id\<close> is the identity function of HOL.
  The action is a value of an arbitrary type \<open>'a\<close>: the scheduler only stores and calls
  it. Optional fields are options.
\<close>

datatype JobStatus = Pending | Running | Completed | Failed | Cancelled

type_synonym ref = nat

type_synonym timeout = nat

record 'a ScheduledJob =
  jobId :: string
  name :: string
  schedule :: string
  action :: 'a
  enabled :: bool
  lastRun :: "number option"
  nextRun :: "number option"
  status :: JobStatus
  intervalId :: "timeout option"

text \<open>
  Jobs are objects: the map, the closures of the timer callbacks and the arrays handed to
  callers all hold references to them, and an assignment through one reference is seen
  through the others. The model therefore has a store of job objects (\<open>heap\<close>), and

  \<^item> \<open>jobs\<close> and \<open>running\<close> are the two private fields of \<^verbatim>\<open>AgentScheduler\<close>; the map
    is an association list in insertion order, its values are references;
  \<^item> \<open>timers\<close> are the intervals that are active in the runtime: the handle, the job
    object its callback is closed over, and the period given to \<^verbatim>\<open>setInterval\<close>;
  \<^item> \<open>pending\<close> are the callbacks suspended at \<^verbatim>\<open>await job.action()\<close>, each with the job
    and the action it called;
  \<^item> \<open>clock\<close> is the time in milliseconds, of which \<^verbatim>\<open>Date.now()\<close> returns the
    number; it moves only by \<open>advance\<close>, so the readings within one call of an
    operation agree;
  \<^item> \<open>console\<close> collects the lines of \<^verbatim>\<open>console.error\<close>;
  \<^item> \<open>arrays\<close> are the arrays returned by \<^verbatim>\<open>getAllJobs\<close> and \<^verbatim>\<open>getJobsByStatus\<close>.

  \<open>next_ref\<close>, \<open>next_timeout\<close> and \<open>next_array\<close> are the next unused reference, handle
  and array.
\<close>

record 'a world =
  jobs :: "(string \<times> ref) list"
  running :: bool
  heap :: "ref \<rightharpoonup> 'a ScheduledJob"
  next_ref :: ref
  timers :: "(timeout \<times> ref \<times> number) list"
  next_timeout :: timeout
  pending :: "(ref \<times> 'a) list"
  clock :: int
  console :: "(string \<times> string) list"
  arrays :: "nat \<rightharpoonup> ref list"
  next_array :: nat

definition init :: "int \<Rightarrow> 'a world" where
  "init t = \<lparr>jobs = [], running = False, heap = Map.empty, next_ref = 0, timers = [],
     next_timeout = 0, pending = [], clock = t, console = [], arrays = Map.empty,
     next_array = 0\<rparr>"

subsection \<open>The services of the runtime\<close>

text \<open>
  A handle returned by \<^verbatim>\<open>setInterval\<close> is an object, hence truthy: the tests
  \<^verbatim>\<open>if (job.intervalId)\<close> of the source are tests for \<open>Some\<close>. \<open>assign a f\<close> is an
  assignment to fields of the object at \<open>a\<close>.
\<close>

definition Date_now :: "'a world \<Rightarrow> number" where
  "Date_now w = round_double (clock w)"

definition setInterval :: "ref \<Rightarrow> number \<Rightarrow> 'a world \<Rightarrow> timeout \<times> 'a world" where
  "setInterval a ms w =
     (next_timeout w,
      w\<lparr>timers := timers w @ [(next_timeout w, a, ms)], next_timeout := Suc (next_timeout w)\<rparr>)"

definition clearInterval :: "timeout \<Rightarrow> 'a world \<Rightarrow> 'a world" where
  "clearInterval h w = w\<lparr>timers := filter (\<lambda>t. fst t \<noteq> h) (timers w)\<rparr>"

definition assign :: "ref \<Rightarrow> ('a ScheduledJob \<Rightarrow> 'a ScheduledJob) \<Rightarrow> 'a world \<Rightarrow> 'a world" where
  "assign a f w = w\<lparr>heap := (heap w)(a := map_option f (heap w a))\<rparr>"

subsection \<open>The operations of the scheduler\<close>

text \<open>
  Each operation takes the world and returns its result with the new world. A reference
  read from the map always points to an object of the store; the branches for \<open>None\<close>
  below are there because \<open>heap\<close> is a partial map, and are never taken in a state
  the operations produce (lemma \<open>wellformed_stored\<close>).
\<close>

definition calculateNextRun :: "string \<Rightarrow> 'a world \<Rightarrow> number" where
  "calculateNextRun s w = js_add (Date_now w) (parseSchedule s)"

definition startJob :: "ref \<Rightarrow> 'a world \<Rightarrow> 'a world" where
  "startJob a w =
     (case heap w a of
        None \<Rightarrow> w
      | Some job \<Rightarrow>
          (let w1 = (case intervalId job of Some h \<Rightarrow> clearInterval h w | None \<Rightarrow> w);
               ms = parseSchedule (schedule job);
               hw = setInterval a ms w1;
               w3 = assign a (\<lambda>j. j\<lparr>intervalId := Some (fst hw)\<rparr>) (snd hw)
           in assign a (\<lambda>j. j\<lparr>nextRun := Some (js_add (Date_now w3) ms)\<rparr>) w3))"

definition addJob :: "string \<Rightarrow> string \<Rightarrow> string \<Rightarrow> 'a \<Rightarrow> 'a world \<Rightarrow> ref \<times> 'a world" where
  "addJob i n s act w =
     (let job = \<lparr>jobId = i, name = n, schedule = s, action = act, enabled = True,
                 lastRun = None, nextRun = Some (calculateNextRun s w), status = Pending,
                 intervalId = None\<rparr>;
          a = next_ref w;
          w1 = w\<lparr>heap := (heap w)(a \<mapsto> job), next_ref := Suc a\<rparr>;
          w2 = w1\<lparr>jobs := AList.update i a (jobs w1)\<rparr>
      in (a, if running w2 then startJob a w2 else w2))"

definition removeJob :: "string \<Rightarrow> 'a world \<Rightarrow> bool \<times> 'a world" where
  "removeJob i w =
     (case map_of (jobs w) i of
        None \<Rightarrow> (False, w)
      | Some a \<Rightarrow>
          (let w1 = (case Option.bind (heap w a) intervalId of
                       Some h \<Rightarrow> clearInterval h w
                     | None \<Rightarrow> w)
           in (True, w1\<lparr>jobs := AList.delete i (jobs w1)\<rparr>)))"

definition jobs_values :: "'a world \<Rightarrow> ref list" where
  "jobs_values w = map snd (jobs w)"

text \<open>
  The loops of \<^verbatim>\<open>start\<close> and \<^verbatim>\<open>stop\<close> run over \<^verbatim>\<open>this.jobs.values()\<close>; their bodies
  are \<open>start_body\<close> and \<open>stop_body\<close>. \<^verbatim>\<open>disableJob\<close> ends with the statements of the
  body of \<^verbatim>\<open>stop\<close>.
\<close>

definition start_body :: "ref \<Rightarrow> 'a world \<Rightarrow> 'a world" where
  "start_body a w =
     (case heap w a of
        None \<Rightarrow> w
      | Some job \<Rightarrow> if enabled job then startJob a w else w)"

definition start :: "'a world \<Rightarrow> 'a world" where
  "start w = fold start_body (jobs_values w) (w\<lparr>running := True\<rparr>)"

definition stop_body :: "ref \<Rightarrow> 'a world \<Rightarrow> 'a world" where
  "stop_body a w =
     (case Option.bind (heap w a) intervalId of
        None \<Rightarrow> w
      | Some h \<Rightarrow> assign a (\<lambda>j. j\<lparr>intervalId := None\<rparr>) (clearInterval h w))"

definition stop :: "'a world \<Rightarrow> 'a world" where
  "stop w = fold stop_body (jobs_values w) (w\<lparr>running := False\<rparr>)"

definition enableJob :: "string \<Rightarrow> 'a world \<Rightarrow> bool \<times> 'a world" where
  "enableJob i w =
     (case map_of (jobs w) i of
        None \<Rightarrow> (False, w)
      | Some a \<Rightarrow>
          (let w1 = assign a (\<lambda>j. j\<lparr>enabled := True\<rparr>) w
           in (True, if running w1 then startJob a w1 else w1)))"

definition disableJob :: "string \<Rightarrow> 'a world \<Rightarrow> bool \<times> 'a world" where
  "disableJob i w =
     (case map_of (jobs w) i of
        None \<Rightarrow> (False, w)
      | Some a \<Rightarrow> (True, stop_body a (assign a (\<lambda>j. j\<lparr>enabled := False\<rparr>) w)))"

definition getJob :: "string \<Rightarrow> 'a world \<Rightarrow> ref option" where
  "getJob i w = map_of (jobs w) i"

text \<open>
  \<^verbatim>\<open>Array.from\<close> and \<^verbatim>\<open>filter\<close> allocate a new array each. \<open>Array_mutate\<close> is a
  caller changing the elements of an array it holds (\<^verbatim>\<open>push\<close>, \<^verbatim>\<open>pop\<close>,
  \<^verbatim>\<open>splice\<close>, ...).
\<close>

definition Array_new :: "ref list \<Rightarrow> 'a world \<Rightarrow> nat \<times> 'a world" where
  "Array_new xs w =
     (next_array w,
      w\<lparr>arrays := (arrays w)(next_array w \<mapsto> xs), next_array := Suc (next_array w)\<rparr>)"

definition Array_elems :: "nat \<Rightarrow> 'a world \<Rightarrow> ref list" where
  "Array_elems r w = (case arrays w r of None \<Rightarrow> [] | Some xs \<Rightarrow> xs)"


definition getAllJobs :: "'a world \<Rightarrow> nat \<times> 'a world" where
  "getAllJobs w = Array_new (jobs_values w) w"

definition has_status :: "'a world \<Rightarrow> JobStatus \<Rightarrow> ref \<Rightarrow> bool" where
  "has_status w st a = (case heap w a of None \<Rightarrow> False | Some j \<Rightarrow> status j = st)"

definition getJobsByStatus :: "JobStatus \<Rightarrow> 'a world \<Rightarrow> nat \<times> 'a world" where
  "getJobsByStatus st w =
     (let rw = getAllJobs w
      in Array_new (filter (has_status (snd rw) st) (Array_elems (fst rw) (snd rw))) (snd rw))"

subsection \<open>The timer callback\<close>

text \<open>
  The callback of \<^verbatim>\<open>startJob\<close> is asynchronous. \<open>fire h\<close> is its run up to the
  \<^verbatim>\<open>await\<close>, when the runtime fires the active timer \<open>h\<close> (a cleared timer does not
  fire). \<open>settle k out\<close> resumes the \<open>k\<close>-th suspended callback when the promise of its
  action is fulfilled or rejected (an action that throws at once is a rejection as well).
  The \<^verbatim>\<open>try\<close> block yields \<open>Inl e\<close> when \<open>e\<close> is thrown; \<open>settle\<close> as a whole yields
  \<open>Inl e\<close> if \<open>e\<close> would leave the callback.
\<close>

datatype outcome = Fulfilled | Rejected string

definition fire :: "timeout \<Rightarrow> 'a world \<Rightarrow> 'a world" where
  "fire h w =
     (case map_of (timers w) h of
        None \<Rightarrow> w
      | Some (a, ms) \<Rightarrow>
          (case heap w a of
             None \<Rightarrow> w
           | Some job \<Rightarrow>
               if \<not> enabled job then w
               else (assign a (\<lambda>j. j\<lparr>status := Running\<rparr>) w)
                      \<lparr>pending := pending w @ [(a, action job)]\<rparr>))"

definition try_block :: "ref \<Rightarrow> outcome \<Rightarrow> 'a world \<Rightarrow> string + 'a world" where
  "try_block a out w =
     (case out of
        Rejected e \<Rightarrow> Inl e
      | Fulfilled \<Rightarrow>
          (let w1 = assign a (\<lambda>j. j\<lparr>status := Completed\<rparr>) w
           in Inr (assign a (\<lambda>j. j\<lparr>lastRun := Some (Date_now w1)\<rparr>) w1)))"

definition catch_block :: "ref \<Rightarrow> string \<Rightarrow> 'a world \<Rightarrow> 'a world" where
  "catch_block a e w =
     (let w1 = assign a (\<lambda>j. j\<lparr>status := Failed\<rparr>) w
      in case heap w1 a of
           None \<Rightarrow> w1
         | Some j \<Rightarrow> w1\<lparr>console := console w1 @ [(''Job '' @ jobId j @ '' failed:'', e)]\<rparr>)"

definition settle :: "nat \<Rightarrow> outcome \<Rightarrow> 'a world \<Rightarrow> string + 'a world" where
  "settle k out w =
     (if k < length (pending w)
      then (let a = fst (pending w ! k);
                w1 = w\<lparr>pending := take k (pending w) @ drop (Suc k) (pending w)\<rparr>
            in case try_block a out w1 of
                 Inr w2 \<Rightarrow> Inr w2
               | Inl e \<Rightarrow> Inr (catch_block a e w1))
      else Inr w)"

definition advance :: "nat \<Rightarrow> 'a world \<Rightarrow> 'a world" where
  "advance d w = w\<lparr>clock := clock w + int d\<rparr>"

subsection \<open>Runs\<close>

text \<open>
  A run is a sequence of calls of the public operations by a caller, of firings and
  settlements by the runtime, and of clock ticks.
\<close>

datatype 'a call =
    AddJob string string string 'a
  | RemoveJob string
  | Start
  | Stop
  | EnableJob string
  | DisableJob string
  | GetAllJobs
  | GetJobsByStatus JobStatus
  | Fire timeout
  | Settle nat outcome
  | Advance nat

fun step :: "'a call \<Rightarrow> 'a world \<Rightarrow> 'a world" where
  "step (AddJob i n s act) w = snd (addJob i n s act w)"
| "step (RemoveJob i) w = snd (removeJob i w)"
| "step Start w = start w"
| "step Stop w = stop w"
| "step (EnableJob i) w = snd (enableJob i w)"
| "step (DisableJob i) w = snd (disableJob i w)"
| "step GetAllJobs w = snd (getAllJobs w)"
| "step (GetJobsByStatus st) w = snd (getJobsByStatus st w)"
| "step (Fire h) w = fire h w"
| "step (Settle k out) w = (case settle k out w of Inr w' \<Rightarrow> w' | Inl e \<Rightarrow> w)"
| "step (Advance d) w = advance d w"

definition run :: "'a call list \<Rightarrow> 'a world \<Rightarrow> 'a world" where
  "run cs w = fold step cs w"

subsection \<open>Observations\<close>

text \<open>
  \<open>timers_of a\<close> are the active timers whose callback is on the job object \<open>a\<close>. A job
  is \<open>armed\<close> when it records a handle and that handle is active with a callback on this
  job. \<open>registry\<close> is everything but the arrays. \<open>observe\<close> is what a caller can tell
  about the registry without comparing handles: the flag and, per stored job, its key,
  its fields other than \<^verbatim>\<open>intervalId\<close>, and the periods of its timers.
\<close>

definition timers_of :: "ref \<Rightarrow> 'a world \<Rightarrow> (timeout \<times> ref \<times> number) list" where
  "timers_of a w = filter (\<lambda>t. fst (snd t) = a) (timers w)"

definition armed :: "'a world \<Rightarrow> ref \<Rightarrow> bool" where
  "armed w a =
     (case Option.bind (heap w a) intervalId of
        None \<Rightarrow> False
      | Some h \<Rightarrow> (h, a) \<in> set (map (\<lambda>t. (fst t, fst (snd t))) (timers w)))"

definition is_enabled :: "'a world \<Rightarrow> ref \<Rightarrow> bool" where
  "is_enabled w a = (case heap w a of None \<Rightarrow> False | Some j \<Rightarrow> enabled j)"


definition strip :: "'a ScheduledJob \<Rightarrow> 'a ScheduledJob" where
  "strip j = j\<lparr>intervalId := None\<rparr>"

definition observe ::
  "'a world \<Rightarrow> bool \<times> (string \<times> 'a ScheduledJob option \<times> number list) list" where
  "observe w =
     (running w,
      map (\<lambda>(i, a). (i, map_option strip (heap w a), map (\<lambda>t. snd (snd t)) (timers_of a w)))
        (jobs w))"

section \<open>The grammar of the specification\<close>

text \<open>
  Section 4.3 of the specification, in its own words: one or more decimal digits,
  optionally followed by a single unit letter; no match gives 60000; a missing unit means
  minutes; \<open>m\<close>, \<open>h\<close> and \<open>d\<close> multiply the value by 60000, 3600000 and 86400000.
\<close>

definition digits :: "string \<Rightarrow> bool" where
  "digits ds \<longleftrightarrow> ds \<noteq> [] \<and> list_all isDigit ds"

fun decimal :: "string \<Rightarrow> int" where
  "decimal [] = 0"
| "decimal (c # cs) = digitVal c * 10 ^ length cs + decimal cs"

definition unit_ms :: "char \<Rightarrow> int" where
  "unit_ms u = (if u = CHR ''h'' then 3600000 else if u = CHR ''d'' then 86400000 else 60000)"

definition in_grammar :: "string \<Rightarrow> bool" where
  "in_grammar s \<longleftrightarrow>
     digits s \<or> (s \<noteq> [] \<and> digits (butlast s) \<and> last s \<in> set ''mhd'')"

definition interval :: "string \<Rightarrow> int" where
  "interval s =
     (if digits s then decimal s * 60000
      else if s \<noteq> [] \<and> digits (butlast s) \<and> last s \<in> set ''mhd''
      then decimal (butlast s) * unit_ms (last s)
      else 60000)"

section \<open>Invariants\<close>

text \<open>
  \<open>job_ok w a\<close>: the object exists, every active timer with a callback on it carries
  the handle the job records and the period of its schedule, and a recorded handle is
  active. \<open>wellformed\<close> adds that keys, stored references and handles are not shared and
  lie below the allocation counters. \<open>parity\<close> is the arm/disarm parity of the
  specification.
\<close>

definition job_ok :: "'a world \<Rightarrow> ref \<Rightarrow> bool" where
  "job_ok w a =
     (case heap w a of
        None \<Rightarrow> False
      | Some j \<Rightarrow>
          (\<forall>t\<in>set (timers w). fst (snd t) = a \<longrightarrow>
             intervalId j = Some (fst t) \<and> snd (snd t) = parseSchedule (schedule j)) \<and>
          (case intervalId j of
             None \<Rightarrow> True
           | Some h \<Rightarrow> (h, a, parseSchedule (schedule j)) \<in> set (timers w)))"

definition wellformed :: "'a world \<Rightarrow> bool" where
  "wellformed w \<longleftrightarrow>
     distinct (map fst (jobs w)) \<and> distinct (map snd (jobs w)) \<and>
     distinct (map fst (timers w)) \<and>
     (\<forall>t\<in>set (timers w). fst t < next_timeout w \<and> fst (snd t) < next_ref w) \<and>
     (\<forall>a\<in>set (jobs_values w). a < next_ref w \<and> job_ok w a)"

definition parity :: "'a world \<Rightarrow> bool" where
  "parity w \<longleftrightarrow>
     (\<forall>a\<in>set (jobs_values w). \<forall>j. heap w a = Some j \<longrightarrow>
        (intervalId j \<noteq> None \<longleftrightarrow> running w \<and> enabled j))"

definition invariant :: "'a world \<Rightarrow> bool" where
  "invariant w \<longleftrightarrow> wellformed w \<and> parity w"

definition disarmed ::
  "'a ScheduledJob \<Rightarrow> (timeout \<times> ref \<times> number) list \<Rightarrow> (timeout \<times> ref \<times> number) list" where
  "disarmed job ts =
     (case intervalId job of None \<Rightarrow> ts | Some h \<Rightarrow> filter (\<lambda>t. fst t \<noteq> h) ts)"

text \<open>
  Loop invariants of \<^verbatim>\<open>start\<close> and \<^verbatim>\<open>stop\<close>, over the set \<open>S\<close> of jobs the loop has
  visited; \<open>rearm t\<close> is what arming at time \<open>t\<close> does to the fields a caller sees, and
  \<open>periods\<close> the timers an armed job has.
\<close>

definition rearm :: "int \<Rightarrow> 'a ScheduledJob \<Rightarrow> 'a ScheduledJob" where
  "rearm t j =
     (if enabled j
      then j\<lparr>nextRun := Some (js_add (round_double t) (parseSchedule (schedule j)))\<rparr>
      else j)"

definition periods :: "'a ScheduledJob option \<Rightarrow> number list" where
  "periods x = (case x of None \<Rightarrow> [] | Some j \<Rightarrow>
      if enabled j then [parseSchedule (schedule j)] else [])"

definition start_inv :: "ref list \<Rightarrow> ref set \<Rightarrow> 'a world \<Rightarrow> bool" where
  "start_inv vs S w \<longleftrightarrow>
     wellformed w \<and> jobs_values w = vs \<and> running w \<and>
     (\<forall>a\<in>set vs. \<forall>j. heap w a = Some j \<longrightarrow>
        (intervalId j \<noteq> None \<longrightarrow> enabled j) \<and>
        (a \<in> S \<longrightarrow> enabled j \<longrightarrow> intervalId j \<noteq> None))"

definition stop_inv :: "ref list \<Rightarrow> ref set \<Rightarrow> 'a world \<Rightarrow> bool" where
  "stop_inv vs S w \<longleftrightarrow>
     wellformed w \<and> jobs_values w = vs \<and> \<not> running w \<and>
     (\<forall>a\<in>S. \<forall>j. heap w a = Some j \<longrightarrow> intervalId j = None)"

definition stop_eff :: "'a world \<Rightarrow> ref list \<Rightarrow> ref set \<Rightarrow> 'a world \<Rightarrow> bool" where
  "stop_eff w vs S w' \<longleftrightarrow>
     jobs w' = jobs w \<and> jobs_values w' = vs \<and> running w' = False \<and>
     pending w' = pending w \<and> clock w' = clock w \<and> console w' = console w \<and>
     arrays w' = arrays w \<and> set (timers w') \<subseteq> set (timers w) \<and>
     (\<forall>a. heap w' a = (if a \<in> S then map_option strip (heap w a) else heap w a)) \<and>
     (\<forall>a\<in>S. \<forall>j h. heap w a = Some j \<longrightarrow> intervalId j = Some h \<longrightarrow>
        h \<notin> fst ` set (timers w'))"

definition start_eff :: "'a world \<Rightarrow> ref set \<Rightarrow> 'a world \<Rightarrow> bool" where
  "start_eff w S w' \<longleftrightarrow>
     clock w' = clock w \<and> next_timeout w \<le> next_timeout w' \<and>
     (\<forall>t\<in>set (timers w'). t \<in> set (timers w) \<or> next_timeout w \<le> fst t) \<and>
     (\<forall>a. map_option strip (heap w' a) =
        (if a \<in> S then map_option (\<lambda>j. strip (rearm (clock w) j)) (heap w a)
         else map_option strip (heap w a))) \<and>
     (\<forall>a\<in>S. \<forall>j. heap w' a = Some j \<longrightarrow> enabled j \<longrightarrow>
        (\<exists>h. intervalId j = Some h \<and> next_timeout w \<le> h))"

section \<open>Example states\<close>

text \<open>
  \<open>ex_world\<close>: job \<open>a\<close> added and disabled again, job \<open>b\<close> added while running.
  \<open>ex_muted\<close>: a caller holding the object of job \<open>b\<close> has cleared its \<open>enabled\<close>
  field itself, so the timer of \<open>b\<close> is still active. \<open>dup_before\<close> and \<open>dup_after\<close>:
  the same id added twice.
\<close>

definition ex_world :: "nat world" where
  "ex_world =
     run [AddJob ''a'' ''A'' ''5m'' 1, Start, AddJob ''b'' ''B'' ''2h'' 2, DisableJob ''a'']
       (init 1000)"

definition ex_muted :: "nat world" where
  "ex_muted = assign 1 (\<lambda>j. j\<lparr>enabled := False\<rparr>) ex_world"

definition dup_before :: "nat world" where
  "dup_before = snd (addJob ''j1'' ''first'' ''5m'' 0 (init 0))"

definition dup_after :: "nat world" where
  "dup_after = snd (addJob ''j1'' ''second'' ''1h'' 1 dup_before)"

definition one_job :: "nat world" where
  "one_job = run [AddJob ''a'' ''A'' ''5m'' 7] (init 0)"

section \<open>Rounding to doubles\<close>

text \<open>
  \<open>ilog2\<close> is the position of the leading bit. Rounding a double again returns it,
  integers below \<open>2 ^ 53\<close> are doubles, and a product of non-negative integers that
  stays below \<open>2 ^ 53\<close> is computed exactly.
\<close>

lemma ilog2_bounds: "0 < n \<Longrightarrow> 2 ^ ilog2 n \<le> n \<and> n < 2 ^ Suc (ilog2 n)"
proof (induction n rule: ilog2.induct)
  case (1 n)
  show ?case
  proof (cases "n < 2")
    case True
    with "1.prems" show ?thesis
      by (simp add: ilog2.simps [of n])
  next
    case False
    then have "0 < n div 2" by simp
    with "1.IH" False have "2 ^ ilog2 (n div 2) \<le> n div 2 \<and> n div 2 < 2 ^ Suc (ilog2 (n div 2))"
      by simp
    with False show ?thesis
      by (simp add: ilog2.simps [of n]) linarith
  qed
qed

lemma ilog2_unique:
  assumes "2 ^ e \<le> n" and "n < 2 ^ Suc e"
  shows "ilog2 n = e"
proof -
  have "(0::int) < 2 ^ e"
    by simp
  with assms(1) have pos: "0 < n"
    by linarith
  note b = ilog2_bounds [OF pos]
  have "e < Suc (ilog2 n)"
  proof (rule ccontr)
    assume "\<not> e < Suc (ilog2 n)"
    then have "(2::int) ^ Suc (ilog2 n) \<le> 2 ^ e"
      by (intro power_increasing) simp_all
    with b assms(1) show False by linarith
  qed
  moreover have "ilog2 n < Suc e"
  proof (rule ccontr)
    assume "\<not> ilog2 n < Suc e"
    then have "(2::int) ^ Suc e \<le> 2 ^ ilog2 n"
      by (intro power_increasing) simp_all
    with b assms(2) show False by linarith
  qed
  ultimately show ?thesis by simp
qed

lemma round_mag_small: "a < 2 ^ 53 \<Longrightarrow> round_mag a = a"
  by (simp add: round_mag_def)

lemma round_at_multiple: "0 < q \<Longrightarrow> round_at q (m * q) = m * q"
  by (simp add: round_at_def)

lemma div_bounds:
  fixes a q l u :: int
  assumes "0 < q" and "l * q \<le> a" and "a < u * q"
  shows "l \<le> a div q" and "a div q < u"
proof -
  define d r where "d = a div q" and "r = a mod q"
  have eq: "a = d * q + r"
    by (simp add: d_def r_def)
  have r: "0 \<le> r" "r < q"
    using assms(1) by (simp_all add: r_def)
  have "l \<le> d"
  proof (rule ccontr)
    assume "\<not> l \<le> d"
    then have "d + 1 \<le> l" by simp
    then have "(d + 1) * q \<le> l * q"
      using assms(1) by (intro mult_right_mono) simp_all
    then have "d * q + q \<le> l * q"
      by (simp add: algebra_simps)
    with eq r assms(2) show False
      by linarith
  qed
  then show "l \<le> a div q"
    by (simp add: d_def)
  have "d < u"
  proof (rule ccontr)
    assume "\<not> d < u"
    then have "u * q \<le> d * q"
      using assms(1) by (intro mult_right_mono) simp_all
    with eq r assms(3) show False
      by linarith
  qed
  then show "a div q < u"
    by (simp add: d_def)
qed

lemma round_mag_multiple:
  assumes "2 ^ 52 \<le> m" and "m \<le> 2 ^ 53" and "1 \<le> k"
  shows "round_mag (m * 2 ^ k) = m * 2 ^ k"
proof -
  define v where "v = m * 2 ^ k"
  have q2: "(2::int) \<le> 2 ^ k"
    using assms(3) power_increasing [of 1 k "2::int"] by simp
  have "(2::int) ^ 52 * 2 \<le> m * 2 ^ k"
    using assms(1) q2 by (intro mult_mono) simp_all
  then have big: "\<not> v < 2 ^ 53"
    by (simp add: v_def)
  then have rm: "round_mag v = round_at (2 ^ (ilog2 v - 52)) v"
    by (simp add: round_mag_def)
  show ?thesis
  proof (cases "m = 2 ^ 53")
    case True
    have d: "v = 2 ^ 52 * 2 ^ Suc k"
      by (simp add: v_def True)
    have "v = 2 ^ (53 + k)"
      by (simp add: v_def True power_add)
    then have "ilog2 v = 53 + k"
      by (intro ilog2_unique) simp_all
    then have "ilog2 v - 52 = Suc k"
      by simp
    with rm have "round_mag v = round_at (2 ^ Suc k) v"
      by (simp only:)
    also have "\<dots> = v"
      unfolding d by (rule round_at_multiple) simp
    finally show ?thesis
      by (simp only: v_def)
  next
    case False
    with assms(2) have lt: "m < 2 ^ 53"
      by simp
    have "2 ^ (52 + k) \<le> v"
      using assms(1) by (simp add: v_def power_add)
    moreover have "v < 2 ^ Suc (52 + k)"
    proof -
      have "m * 2 ^ k < 2 ^ 53 * 2 ^ k"
        using lt by (intro mult_strict_right_mono) simp_all
      then show ?thesis
        by (simp add: v_def power_add)
    qed
    ultimately have "ilog2 v = 52 + k"
      by (rule ilog2_unique)
    then have "ilog2 v - 52 = k"
      by simp
    with rm have "round_mag v = round_at (2 ^ k) v"
      by (simp only:)
    also have "\<dots> = v"
      unfolding v_def by (rule round_at_multiple) simp
    finally show ?thesis
      by (simp only: v_def)
  qed
qed

lemma round_mag_form:
  assumes "2 ^ 53 \<le> a"
  shows "\<exists>m k. round_mag a = m * 2 ^ k \<and> 2 ^ 52 \<le> m \<and> m \<le> 2 ^ 53 \<and> 1 \<le> k"
proof -
  define e where "e = ilog2 a"
  have "(0::int) < 2 ^ 53"
    by simp
  with assms have pos: "0 < a"
    by linarith
  from ilog2_bounds [OF pos] have b: "2 ^ e \<le> a" "a < 2 ^ Suc e"
    by (simp_all add: e_def)
  have e53: "53 \<le> e"
  proof (rule ccontr)
    assume "\<not> 53 \<le> e"
    then have "(2::int) ^ Suc e \<le> 2 ^ 53"
      by (intro power_increasing) simp_all
    with b(2) assms show False by linarith
  qed
  define k where "k = e - 52"
  define q :: int where "q = 2 ^ k"
  define m where "m = a div q"
  have k1: "1 \<le> k" and ek: "e = 52 + k"
    using e53 by (simp_all add: k_def)
  have qpos: "0 < q"
    by (simp add: q_def)
  have lo: "2 ^ 52 * q \<le> a"
    using b(1) by (simp add: ek q_def power_add)
  have hi: "a < 2 ^ 53 * q"
    using b(2) by (simp add: ek q_def power_add)
  from div_bounds [OF qpos lo hi] have m1: "2 ^ 52 \<le> m" and m2: "m < 2 ^ 53"
    by (simp_all add: m_def)
  define m' where "m' = (if q < 2 * (a mod q) \<or> (2 * (a mod q) = q \<and> odd m) then m + 1 else m)"
  have "\<not> a < 2 ^ 53"
    using assms by simp
  then have "round_mag a = m' * q"
    by (simp add: round_mag_def round_at_def Let_def m'_def m_def q_def k_def e_def)
  then have "round_mag a = m' * 2 ^ k"
    by (simp add: q_def)
  moreover have "2 ^ 52 \<le> m'" "m' \<le> 2 ^ 53"
    using m1 m2 by (simp_all add: m'_def)
  ultimately show ?thesis
    using k1 by blast
qed

lemma round_mag_idem: "round_mag (round_mag a) = round_mag a"
proof (cases "a < 2 ^ 53")
  case True
  then show ?thesis by (simp add: round_mag_small)
next
  case False
  then have "2 ^ 53 \<le> a" by simp
  from round_mag_form [OF this] obtain m k where "round_mag a = m * 2 ^ k"
    "2 ^ 52 \<le> m" "m \<le> 2 ^ 53" "1 \<le> k"
    by blast
  then show ?thesis
    by (simp add: round_mag_multiple)
qed

lemma round_mag_pos: "0 < a \<Longrightarrow> 0 < round_mag a"
proof (cases "a < 2 ^ 53")
  case True
  assume "0 < a"
  with True show ?thesis by (simp add: round_mag_small)
next
  case False
  then have "2 ^ 53 \<le> a" by simp
  from round_mag_form [OF this] obtain m k where "round_mag a = m * 2 ^ k" "2 ^ 52 \<le> m"
    by blast
  moreover from this(2) have "0 < m"
    using zero_less_power [of "2::int" 52] by linarith
  ultimately show ?thesis
    by simp
qed

lemma round_mag_zero: "round_mag 0 = 0"
  by (simp add: round_mag_def)

lemma pack_finite: "v < 2 ^ 1024 \<Longrightarrow> pack n v = Num (if n < 0 then - v else v)"
  by (simp add: pack_def)

lemma pack_Num: "pack n r = Num v \<Longrightarrow> r < 2 ^ 1024 \<and> v = (if n < 0 then - r else r)"
  by (simp add: pack_def split: if_splits)

lemma round_mag_nonneg: "0 \<le> a \<Longrightarrow> 0 \<le> round_mag a"
  using round_mag_pos [of a] round_mag_zero by (cases "a = 0") auto

lemma round_double_small: "\<bar>n\<bar> < 2 ^ 53 \<Longrightarrow> round_double n = Num n"
proof -
  assume a: "\<bar>n\<bar> < 2 ^ 53"
  then have r: "round_mag \<bar>n\<bar> = \<bar>n\<bar>"
    by (rule round_mag_small)
  have "(2::int) ^ 53 \<le> 2 ^ 1024"
    by (intro power_increasing) simp_all
  with a have "\<bar>n\<bar> < (2::int) ^ 1024"
    by linarith
  then have "pack n \<bar>n\<bar> = Num (if n < 0 then - \<bar>n\<bar> else \<bar>n\<bar>)"
    by (rule pack_finite)
  then show ?thesis
    by (simp add: round_double_def r)
qed

lemma round_double_idem:
  assumes "round_double n = Num v"
  shows "round_double v = Num v"
proof -
  define r where "r = round_mag \<bar>n\<bar>"
  from assms have "pack n r = Num v"
    by (simp add: round_double_def r_def)
  from pack_Num [OF this] have lt: "r < 2 ^ 1024" and v: "v = (if n < 0 then - r else r)"
    by simp_all
  have r0: "0 \<le> r"
    unfolding r_def by (rule round_mag_nonneg) simp
  have rp: "0 < r" if "n < 0"
    unfolding r_def by (rule round_mag_pos) (use that in simp)
  have av: "\<bar>v\<bar> = r"
    using r0 by (simp add: v)
  have sg: "v < 0 \<longleftrightarrow> n < 0"
    using r0 rp by (auto simp: v)
  have "round_mag \<bar>v\<bar> = r"
    unfolding av by (simp add: r_def round_mag_idem)
  then have "round_double v = pack v r"
    by (simp add: round_double_def)
  also have "\<dots> = Num (if v < 0 then - r else r)"
    using lt by (rule pack_finite)
  also have "(if v < 0 then - r else r) = v"
  proof (cases "n < 0")
    case True
    with rp sg show ?thesis by (simp add: v)
  next
    case False
    with r0 sg show ?thesis by (simp add: v)
  qed
  finally show ?thesis .
qed

lemma round_double_nonneg: "0 \<le> n \<Longrightarrow> nonnegative (round_double n)"
proof -
  assume n: "0 \<le> n"
  then have "0 \<le> round_mag \<bar>n\<bar>"
    by (intro round_mag_nonneg) simp
  with n show ?thesis
    by (simp add: round_double_def pack_def nonnegative_def)
qed

lemma js_add_zero: "js_add (round_double c) (Num 0) = round_double c"
  by (cases "round_double c") (simp_all add: round_double_idem)

lemma js_mul_nonneg:
  assumes "nonnegative x" and "0 < k"
  shows "nonnegative (js_mul x (Num k))"
proof (cases x)
  case (Num a)
  with assms have "0 \<le> a * k"
    by (simp add: nonnegative_def)
  then show ?thesis
    by (simp add: Num round_double_nonneg)
qed (use assms in \<open>simp_all add: nonnegative_def\<close>)

lemma js_mul_exact:
  "\<bar>a * b\<bar> < 2 ^ 53 \<Longrightarrow> js_mul (Num a) (Num b) = Num (a * b)"
  by (simp add: round_double_small)

lemma scale_exact:
  assumes "0 \<le> n" and "1 \<le> k" and "n * k < 2 ^ 53"
  shows "js_mul (Num n) (Num k) = Num (n * k)"
proof -
  from assms(1,2) have "0 \<le> n * k"
    by simp
  with assms(3) have "\<bar>n * k\<bar> < 2 ^ 53"
    by simp
  then show ?thesis
    by (rule js_mul_exact)
qed

lemma scale_le:
  fixes n :: int
  assumes "0 \<le> n" and "k \<le> l" and "n * l < b"
  shows "n * k < b"
proof -
  from assms(1,2) have "n * k \<le> n * l"
    by (rule mult_left_mono [rotated])
  with assms(3) show ?thesis
    by simp
qed

lemma minutes_exact:
  assumes "0 \<le> n" and "n * 60000 < 2 ^ 53"
  shows "js_mul (js_mul (round_double n) (Num 60)) (Num 1000) = Num (n * 60000)"
proof -
  note b = scale_le [OF assms(1) _ assms(2)]
  have "round_double n = Num n"
    using assms(1) b [of 1] by (intro round_double_small) simp
  moreover have "js_mul (Num n) (Num 60) = Num (n * 60)"
    using assms(1) b [of 60] by (intro scale_exact) simp_all
  moreover have "js_mul (Num (n * 60)) (Num 1000) = Num (n * 60 * 1000)"
    using assms by (intro scale_exact) simp_all
  ultimately show ?thesis
    by simp
qed

lemma hours_exact:
  assumes "0 \<le> n" and "n * 3600000 < 2 ^ 53"
  shows "js_mul (js_mul (js_mul (round_double n) (Num 60)) (Num 60)) (Num 1000) =
     Num (n * 3600000)"
proof -
  note b = scale_le [OF assms(1) _ assms(2)]
  have "round_double n = Num n"
    using assms(1) b [of 1] by (intro round_double_small) simp
  moreover have "js_mul (Num n) (Num 60) = Num (n * 60)"
    using assms(1) b [of 60] by (intro scale_exact) simp_all
  moreover have "js_mul (Num (n * 60)) (Num 60) = Num (n * 60 * 60)"
    using assms(1) b [of 3600] by (intro scale_exact) simp_all
  moreover have "js_mul (Num (n * 60 * 60)) (Num 1000) = Num (n * 60 * 60 * 1000)"
    using assms by (intro scale_exact) simp_all
  ultimately show ?thesis
    by simp
qed

lemma days_exact:
  assumes "0 \<le> n" and "n * 86400000 < 2 ^ 53"
  shows "js_mul (js_mul (js_mul (js_mul (round_double n) (Num 24)) (Num 60)) (Num 60)) (Num 1000) =
     Num (n * 86400000)"
proof -
  note b = scale_le [OF assms(1) _ assms(2)]
  have "round_double n = Num n"
    using assms(1) b [of 1] by (intro round_double_small) simp
  moreover have "js_mul (Num n) (Num 24) = Num (n * 24)"
    using assms(1) b [of 24] by (intro scale_exact) simp_all
  moreover have "js_mul (Num (n * 24)) (Num 60) = Num (n * 24 * 60)"
    using assms(1) b [of 1440] by (intro scale_exact) simp_all
  moreover have "js_mul (Num (n * 24 * 60)) (Num 60) = Num (n * 24 * 60 * 60)"
    using assms(1) b [of 86400] by (intro scale_exact) simp_all
  moreover have "js_mul (Num (n * 24 * 60 * 60)) (Num 1000) = Num (n * 24 * 60 * 60 * 1000)"
    using assms by (intro scale_exact) simp_all
  ultimately show ?thesis
    by simp
qed

section \<open>The matcher against the grammar\<close>

text \<open>
  The backtracking matcher accepts exactly the strings of the grammar, with the digit
  string and the unit letter as its groups, and \<open>parseInt\<close> of a digit string is the
  double nearest to its decimal value. Where the product with the unit stays below
  \<open>2 ^ 53\<close>, and so for every schedule of at most eight characters, \<open>parseSchedule\<close>
  is the \<open>interval\<close> of the specification.
\<close>

lemma isDigit_unit: "u \<in> set ''mhd'' \<Longrightarrow> \<not> isDigit u"
  by (auto simp: isDigit_def)

lemma isUnit_iff: "isUnit r \<longleftrightarrow> (\<exists>u. r = [u] \<and> u \<in> set ''mhd'')"
  by (auto simp: isUnit_def)

lemma digitVal_nonneg: "isDigit c \<Longrightarrow> 0 \<le> digitVal c"
  by (auto simp: isDigit_def digitVal_def)

lemma horner_decimal:
  "foldl (\<lambda>n c. 10 * n + digitVal c) a ds = a * 10 ^ length ds + decimal ds"
  by (induction ds arbitrary: a) (simp_all add: algebra_simps)

lemma takeWhile_all: "list_all P xs \<Longrightarrow> takeWhile P xs = xs"
  by (induction xs) simp_all

lemma parseInt_decimal: "list_all isDigit ds \<Longrightarrow> parseInt ds = round_double (decimal ds)"
  by (simp add: parseInt_def takeWhile_all horner_decimal)

lemma decimal_nonneg: "list_all isDigit ds \<Longrightarrow> 0 \<le> decimal ds"
  by (induction ds) (simp_all add: digitVal_nonneg)

lemma parseInt_nonneg: "nonnegative (parseInt s)"
proof -
  have "list_all isDigit (takeWhile isDigit s)"
    by (induction s) simp_all
  then have "0 \<le> decimal (takeWhile isDigit s)"
    by (rule decimal_nonneg)
  then have "nonnegative (round_double (decimal (takeWhile isDigit s)))"
    by (rule round_double_nonneg)
  then show ?thesis
    by (simp add: parseInt_def horner_decimal)
qed

lemma match_digits:
  assumes "digits ds"
  shows "match_schedule ds = Some (ds, None)"
proof -
  from assms have tw: "takeWhile isDigit ds = ds" and ne: "ds \<noteq> []"
    by (simp_all add: digits_def takeWhile_all)
  from ne obtain k where k: "length ds = Suc k"
    by (cases ds) auto
  have "backtrack (Suc k) ds = Some (ds, None)"
    using k by (simp add: isUnit_def)
  then show ?thesis
    by (simp add: match_schedule_def tw k)
qed

lemma takeWhile_digits_unit:
  "list_all isDigit ds \<Longrightarrow> \<not> isDigit u \<Longrightarrow> takeWhile isDigit (ds @ u # r) = ds"
  by (induction ds) simp_all

lemma match_digits_unit:
  assumes "digits ds" and "u \<in> set ''mhd''"
  shows "match_schedule (ds @ [u]) = Some (ds, Some [u])"
proof -
  from assms have tw: "takeWhile isDigit (ds @ [u]) = ds" and ne: "ds \<noteq> []"
    by (simp_all add: digits_def takeWhile_digits_unit isDigit_unit)
  from ne obtain k where k: "length ds = Suc k"
    by (cases ds) auto
  have "isUnit [u]"
    using assms(2) by (simp add: isUnit_iff)
  then have "backtrack (Suc k) (ds @ [u]) = Some (ds, Some [u])"
    using k by simp
  then show ?thesis
    by (simp add: match_schedule_def tw k)
qed

lemma backtrack_grammar:
  assumes "backtrack k s = Some x" and "k \<le> length (takeWhile isDigit s)"
  shows "in_grammar s"
  using assms
proof (induction k)
  case 0
  then show ?case by simp
next
  case (Suc k)
  let ?p = "takeWhile isDigit s" and ?r = "dropWhile isDigit s"
  have s: "s = ?p @ ?r" by simp
  have pd: "list_all isDigit ?p"
    by (induction s) simp_all
  have pne: "?p \<noteq> []"
    using Suc.prems(2) by auto
  have dr: "drop (Suc k) s = drop (Suc k) ?p @ ?r"
    using Suc.prems(2) by (subst s) (simp del: takeWhile_dropWhile_id)
  show ?case
  proof (cases "isUnit (drop (Suc k) s)")
    case True
    then obtain u where u: "drop (Suc k) s = [u]" "u \<in> set ''mhd''"
      by (auto simp: isUnit_iff)
    have "drop (Suc k) ?p = []"
    proof (rule ccontr)
      assume "drop (Suc k) ?p \<noteq> []"
      with u(1) dr have "drop (Suc k) ?p = [u]"
        by (cases "drop (Suc k) ?p") auto
      then have "u \<in> set ?p"
        by (metis in_set_dropD list.set_intros(1))
      then have "isDigit u"
        using pd by (simp add: list_all_iff)
      with u(2) show False
        by (simp add: isDigit_unit)
    qed
    with u(1) dr have "?r = [u]" by simp
    with s have "s = ?p @ [u]" by simp
    then have "s \<noteq> []" "butlast s = ?p" "last s = u"
      by (metis snoc_eq_iff_butlast)+
    then show ?thesis
      using pd pne u(2) by (simp add: in_grammar_def digits_def)
  next
    case nu: False
    show ?thesis
    proof (cases "drop (Suc k) s = []")
      case True
      with dr have "?r = []" by simp
      with s have "s = ?p" by simp
      then show ?thesis
        using pd pne by (simp add: in_grammar_def digits_def)
    next
      case False
      with nu Suc.prems have "backtrack k s = Some x" by simp
      then show ?thesis
        using Suc.IH Suc.prems(2) by simp
    qed
  qed
qed

lemma match_no_grammar: "\<not> in_grammar s \<Longrightarrow> match_schedule s = None"
  using backtrack_grammar [of "length (takeWhile isDigit s)" s]
  by (cases "match_schedule s") (auto simp: match_schedule_def)

lemma in_grammar_iff:
  "in_grammar s \<longleftrightarrow>
     (\<exists>ds u. s = ds @ u \<and> ds \<noteq> [] \<and> (\<forall>c\<in>set ds. isDigit c) \<and>
        (u = [] \<or> u = ''m'' \<or> u = ''h'' \<or> u = ''d''))"
  (is "?l \<longleftrightarrow> ?r")
proof
  assume ?l
  then consider "digits s" | "s \<noteq> []" "digits (butlast s)" "last s \<in> set ''mhd''"
    by (auto simp: in_grammar_def)
  then show ?r
  proof cases
    case 1
    then have "s = s @ [] \<and> s \<noteq> [] \<and> (\<forall>c\<in>set s. isDigit c)"
      by (simp add: digits_def list_all_iff)
    then show ?thesis by blast
  next
    case 2
    then have "s = butlast s @ [last s] \<and> butlast s \<noteq> [] \<and> (\<forall>c\<in>set (butlast s). isDigit c)"
      by (simp add: digits_def list_all_iff)
    moreover from 2 have "[last s] = ''m'' \<or> [last s] = ''h'' \<or> [last s] = ''d''"
      by auto
    ultimately show ?thesis by blast
  qed
next
  assume ?r
  then obtain ds u where h: "s = ds @ u" "ds \<noteq> []" "\<forall>c\<in>set ds. isDigit c"
     "u = [] \<or> u = ''m'' \<or> u = ''h'' \<or> u = ''d''"
    by blast
  then have "digits ds" by (simp add: digits_def list_all_iff)
  with h(1,4) show ?l
    by (auto simp: in_grammar_def)
qed

lemma decimal_zeros: "set zs \<subseteq> {CHR ''0''} \<Longrightarrow> decimal zs = 0"
  by (induction zs) (simp_all add: digitVal_def)

lemma parseSchedule_nonneg: "nonnegative (parseSchedule s)"
proof -
  have 1: "nonnegative (js_mul (js_mul x (Num 60)) (Num 1000))" if "nonnegative x" for x
    using that by (intro js_mul_nonneg) simp_all
  have 2: "nonnegative (js_mul (js_mul (js_mul x (Num 60)) (Num 60)) (Num 1000))"
    if "nonnegative x" for x
    using that by (intro js_mul_nonneg) simp_all
  have 3: "nonnegative (js_mul (js_mul (js_mul (js_mul x (Num 24)) (Num 60)) (Num 60)) (Num 1000))"
    if "nonnegative x" for x
    using that by (intro js_mul_nonneg) simp_all
  show ?thesis
    using 1 2 3 parseInt_nonneg
    by (simp add: parseSchedule_def Let_def nonnegative_def [of "Num 60000"]
        split: option.splits prod.splits)
qed

lemma parseSchedule_digits:
  assumes "digits ds" and "decimal ds * 60000 < 2 ^ 53"
  shows "parseSchedule ds = Num (decimal ds * 60000)"
proof -
  from assms(1) have d: "list_all isDigit ds"
    by (simp add: digits_def)
  from minutes_exact [OF decimal_nonneg [OF d] assms(2)] show ?thesis
    by (simp add: parseSchedule_def match_digits [OF assms(1)] parseInt_decimal [OF d])
qed

lemma parseSchedule_digits_unit:
  assumes "digits ds" and "u \<in> set ''mhd''" and "decimal ds * unit_ms u < 2 ^ 53"
  shows "parseSchedule (ds @ [u]) = Num (decimal ds * unit_ms u)"
proof -
  from assms(1) have d: "list_all isDigit ds"
    by (simp add: digits_def)
  note n = decimal_nonneg [OF d]
  note m = match_digits_unit [OF assms(1,2)]
  from assms(2) consider "u = CHR ''m''" | "u = CHR ''h''" | "u = CHR ''d''"
    by auto
  then show ?thesis
  proof cases
    case 1
    with assms(3) have "decimal ds * 60000 < 2 ^ 53"
      by (simp add: unit_ms_def)
    from minutes_exact [OF n this] show ?thesis
      by (simp add: parseSchedule_def m [unfolded 1] parseInt_decimal [OF d] 1 unit_ms_def)
  next
    case 2
    with assms(3) have "decimal ds * 3600000 < 2 ^ 53"
      by (simp add: unit_ms_def)
    from hours_exact [OF n this] show ?thesis
      by (simp add: parseSchedule_def m [unfolded 2] parseInt_decimal [OF d] 2 unit_ms_def)
  next
    case 3
    with assms(3) have "decimal ds * 86400000 < 2 ^ 53"
      by (simp add: unit_ms_def)
    from days_exact [OF n this] show ?thesis
      by (simp add: parseSchedule_def m [unfolded 3] parseInt_decimal [OF d] 3 unit_ms_def)
  qed
qed

lemma parseSchedule_outside: "\<not> in_grammar s \<Longrightarrow> parseSchedule s = Num 60000"
  by (simp add: parseSchedule_def match_no_grammar)

lemma parseSchedule_exact:
  assumes "interval s < 2 ^ 53"
  shows "parseSchedule s = Num (interval s)"
proof (cases "digits s")
  case True
  with assms show ?thesis
    by (simp add: interval_def parseSchedule_digits)
next
  case nd: False
  show ?thesis
  proof (cases "s \<noteq> [] \<and> digits (butlast s) \<and> last s \<in> set ''mhd''")
    case True
    then have s: "butlast s @ [last s] = s"
      by simp
    from True nd assms have "decimal (butlast s) * unit_ms (last s) < 2 ^ 53"
      by (auto simp: interval_def)
    with True have "parseSchedule (butlast s @ [last s]) =
        Num (decimal (butlast s) * unit_ms (last s))"
      by (intro parseSchedule_digits_unit) simp_all
    with True nd show ?thesis
      unfolding s by (auto simp: interval_def)
  next
    case False
    with nd have "\<not> in_grammar s"
      by (simp add: in_grammar_def)
    then have "parseSchedule s = Num 60000"
      by (rule parseSchedule_outside)
    then show ?thesis
      using nd False by (auto simp: interval_def)
  qed
qed

lemma digitVal_le: "isDigit c \<Longrightarrow> digitVal c \<le> 9"
  by (auto simp: isDigit_def digitVal_def)

lemma decimal_less: "list_all isDigit ds \<Longrightarrow> decimal ds < 10 ^ length ds"
proof (induction ds)
  case Nil
  then show ?case by simp
next
  case (Cons c cs)
  define p where "p = (10::int) ^ length cs"
  from Cons have "digitVal c \<le> 9" and d: "decimal cs < p"
    by (simp_all add: digitVal_le p_def)
  then have "digitVal c * p \<le> 9 * p"
    by (intro mult_right_mono) (simp_all add: p_def)
  with d have "digitVal c * p + decimal cs < 10 * p"
    by linarith
  then show ?case
    by (simp add: p_def)
qed

lemma decimal_less_8:
  assumes "list_all isDigit ds" and "length ds \<le> 8"
  shows "decimal ds < 100000000"
proof -
  have "(10::int) ^ length ds \<le> 10 ^ 8"
    using assms(2) by (intro power_increasing) simp_all
  with decimal_less [OF assms(1)] show ?thesis
    by simp
qed

lemma interval_range:
  assumes "length s \<le> 8"
  shows "interval s < 2 ^ 53"
proof -
  have u: "unit_ms c \<le> 86400000" for c
    by (simp add: unit_ms_def)
  have b: "decimal ds * k < 2 ^ 53"
    if "list_all isDigit ds" "length ds \<le> 8" "0 \<le> k" "k \<le> 86400000" for ds k
  proof -
    from decimal_less_8 [OF that(1,2)] have "decimal ds \<le> 99999999"
      by simp
    with that(3) have "decimal ds * k \<le> 99999999 * k"
      by (simp add: mult_right_mono)
    also from that(4) have "\<dots> \<le> 99999999 * 86400000"
      by simp
    finally show ?thesis
      by simp
  qed
  have k: "0 \<le> unit_ms c" for c
    by (simp add: unit_ms_def)
  show ?thesis
    unfolding interval_def
    using assms b [of s 60000] b [of "butlast s" "unit_ms (last s)"] u [of "last s"] k [of "last s"]
    by (simp add: digits_def)
qed

lemma parseSchedule_exact_range: "length s \<le> 8 \<Longrightarrow> parseSchedule s = Num (interval s)"
  by (rule parseSchedule_exact) (rule interval_range)

section \<open>The invariant is kept by every operation\<close>

subsection \<open>Arming and disarming one job\<close>

lemma timers_of_clear:
  "timers_of b (clearInterval h w) = filter (\<lambda>t. fst t \<noteq> h) (timers_of b w)"
  by (simp add: timers_of_def clearInterval_def conj_commute)

lemma key_unique:
  "distinct (map fst xs) \<Longrightarrow> t \<in> set xs \<Longrightarrow> t' \<in> set xs \<Longrightarrow> fst t = fst t' \<Longrightarrow> t = t'"
  by (metis eq_key_imp_eq_value prod.collapse)

lemma wellformed_job_ok: "wellformed w \<Longrightarrow> a \<in> set (jobs_values w) \<Longrightarrow> job_ok w a"
  by (simp add: wellformed_def)

lemma startJob_frame:
  "jobs (startJob a w) = jobs w" "jobs_values (startJob a w) = jobs_values w" "running (startJob a w) = running w"
  "next_ref (startJob a w) = next_ref w" "pending (startJob a w) = pending w"
  "clock (startJob a w) = clock w" "console (startJob a w) = console w"
  "arrays (startJob a w) = arrays w" "next_array (startJob a w) = next_array w"
  by (simp_all add: startJob_def Let_def assign_def setInterval_def clearInterval_def
      jobs_values_def split: option.splits)

lemma startJob_heap:
  "heap w a = Some job \<Longrightarrow>
   heap (startJob a w) =
     (heap w)(a \<mapsto> job\<lparr>intervalId := Some (next_timeout w),
                        nextRun := Some (js_add (Date_now w) (parseSchedule (schedule job)))\<rparr>)"
  by (auto simp: startJob_def Let_def assign_def setInterval_def clearInterval_def Date_now_def
      split: option.splits)

lemma startJob_timers:
  "heap w a = Some job \<Longrightarrow>
   timers (startJob a w) =
     disarmed job (timers w) @ [(next_timeout w, a, parseSchedule (schedule job))]"
  by (simp add: disarmed_def startJob_def Let_def assign_def setInterval_def clearInterval_def
      split: option.splits)

lemma startJob_next_timeout:
  "heap w a = Some job \<Longrightarrow> next_timeout (startJob a w) = Suc (next_timeout w)"
  by (simp add: startJob_def Let_def assign_def setInterval_def clearInterval_def
      split: option.splits)

lemma job_ok_heap: "job_ok w a \<Longrightarrow> \<exists>j. heap w a = Some j"
  by (simp add: job_ok_def split: option.splits)

lemma job_ok_timer:
  "job_ok w a \<Longrightarrow> heap w a = Some j \<Longrightarrow> t \<in> set (timers w) \<Longrightarrow> fst (snd t) = a \<Longrightarrow>
   intervalId j = Some (fst t) \<and> snd (snd t) = parseSchedule (schedule j)"
  by (simp add: job_ok_def)

lemma job_ok_handle:
  "job_ok w a \<Longrightarrow> heap w a = Some j \<Longrightarrow> intervalId j = Some h \<Longrightarrow>
   (h, a, parseSchedule (schedule j)) \<in> set (timers w)"
  by (simp add: job_ok_def)

lemma job_okI:
  "heap w a = Some j \<Longrightarrow>
   (\<And>t. t \<in> set (timers w) \<Longrightarrow> fst (snd t) = a \<Longrightarrow>
      intervalId j = Some (fst t) \<and> snd (snd t) = parseSchedule (schedule j)) \<Longrightarrow>
   (\<And>h. intervalId j = Some h \<Longrightarrow> (h, a, parseSchedule (schedule j)) \<in> set (timers w)) \<Longrightarrow>
   job_ok w a"
  by (simp add: job_ok_def split: option.splits)

lemma stop_body_frame:
  "jobs (stop_body a w) = jobs w" "jobs_values (stop_body a w) = jobs_values w"
  "running (stop_body a w) = running w" "next_ref (stop_body a w) = next_ref w"
  "next_timeout (stop_body a w) = next_timeout w" "pending (stop_body a w) = pending w"
  "clock (stop_body a w) = clock w" "console (stop_body a w) = console w"
  "arrays (stop_body a w) = arrays w" "next_array (stop_body a w) = next_array w"
  by (simp_all add: stop_body_def assign_def clearInterval_def jobs_values_def
      split: option.splits)

lemma stop_body_heap:
  "heap w a = Some job \<Longrightarrow> heap (stop_body a w) = (heap w)(a \<mapsto> job\<lparr>intervalId := None\<rparr>)"
  by (auto simp: stop_body_def assign_def clearInterval_def split: option.splits)

lemma stop_body_timers:
  "heap w a = Some job \<Longrightarrow> timers (stop_body a w) = disarmed job (timers w)"
  by (simp add: stop_body_def assign_def clearInterval_def disarmed_def split: option.splits)

lemma disarmed_facts:
  assumes "wellformed w" and "a \<in> set (jobs_values w)" and job: "heap w a = Some job"
  shows "set (disarmed job (timers w)) \<subseteq> set (timers w)"
    and "distinct (map fst (disarmed job (timers w)))"
    and "\<And>t. t \<in> set (disarmed job (timers w)) \<Longrightarrow> fst (snd t) \<noteq> a"
    and "\<And>hb b p. b \<noteq> a \<Longrightarrow> (hb, b, p) \<in> set (timers w) \<Longrightarrow>
           (hb, b, p) \<in> set (disarmed job (timers w))"
proof -
  from assms have oka: "job_ok w a"
    by (simp add: wellformed_job_ok)
  let ?P = "parseSchedule (schedule job)"
  have d: "distinct (map fst (timers w))"
    using assms(1) by (simp add: wellformed_def)
  show sub: "set (disarmed job (timers w)) \<subseteq> set (timers w)"
    by (auto simp: disarmed_def split: option.splits)
  show "distinct (map fst (disarmed job (timers w)))"
    using d by (auto simp: disarmed_def distinct_map_filter split: option.splits)
  show "fst (snd t) \<noteq> a" if "t \<in> set (disarmed job (timers w))" for t
  proof
    assume ta: "fst (snd t) = a"
    from that sub have "t \<in> set (timers w)" by blast
    from job_ok_timer [OF oka job this ta] have "intervalId job = Some (fst t)" by simp
    with that show False by (simp add: disarmed_def)
  qed
  show "(hb, b, p) \<in> set (disarmed job (timers w))"
    if "b \<noteq> a" "(hb, b, p) \<in> set (timers w)" for hb b p
  proof (cases "intervalId job")
    case None
    with that show ?thesis by (simp add: disarmed_def)
  next
    case (Some h)
    from job_ok_handle [OF oka job Some] have m: "(h, a, ?P) \<in> set (timers w)" .
    have "hb \<noteq> h"
    proof
      assume "hb = h"
      with key_unique [OF d that(2) m] have "(hb, b, p) = (h, a, ?P)" by simp
      with that(1) show False by simp
    qed
    with Some that(2) show ?thesis by (simp add: disarmed_def)
  qed
qed

lemma job_ok_other:
  assumes "wellformed w" and "a \<in> set (jobs_values w)" and job: "heap w a = Some job"
    and b: "b \<in> set (jobs_values w)" "b \<noteq> a"
    and hp: "heap w' b = heap w b"
    and tm: "\<And>t. fst (snd t) = b \<Longrightarrow>
             t \<in> set (timers w') \<longleftrightarrow> t \<in> set (disarmed job (timers w))"
  shows "job_ok w' b"
proof -
  note df = disarmed_facts [OF assms(1-3)]
  from b(1) assms(1) have okb: "job_ok w b"
    by (simp add: wellformed_job_ok)
  then obtain jb where jb: "heap w b = Some jb"
    using job_ok_heap by blast
  show ?thesis
  proof (rule job_okI [where j = jb])
    show "heap w' b = Some jb"
      using hp jb by simp
  next
    fix t assume t: "t \<in> set (timers w')" "fst (snd t) = b"
    with tm [of t] have "t \<in> set (disarmed job (timers w))" by simp
    with df(1) have "t \<in> set (timers w)" by (rule subsetD)
    from job_ok_timer [OF okb jb this t(2)]
    show "intervalId jb = Some (fst t) \<and> snd (snd t) = parseSchedule (schedule jb)" .
  next
    fix h assume "intervalId jb = Some h"
    from job_ok_handle [OF okb jb this] df(4) [OF b(2)]
    have "(h, b, parseSchedule (schedule jb)) \<in> set (disarmed job (timers w))" by simp
    with tm [of "(h, b, parseSchedule (schedule jb))"]
    show "(h, b, parseSchedule (schedule jb)) \<in> set (timers w')" by simp
  qed
qed

lemma startJob_wf:
  assumes "wellformed w" and "a \<in> set (jobs_values w)"
  shows "wellformed (startJob a w)"
proof -
  from assms have oka: "job_ok w a"
    by (rule wellformed_job_ok)
  then obtain job where job: "heap w a = Some job"
    using job_ok_heap by blast
  note df = disarmed_facts [OF assms job]
  let ?P = "parseSchedule (schedule job)"
  have bd: "\<forall>t\<in>set (timers w). fst t < next_timeout w \<and> fst (snd t) < next_ref w"
    using assms(1) by (simp add: wellformed_def)
  with df(1) have old_bd:
    "\<forall>t\<in>set (disarmed job (timers w)). fst t < next_timeout w \<and> fst (snd t) < next_ref w"
    by blast
  have tms: "timers (startJob a w) = disarmed job (timers w) @ [(next_timeout w, a, ?P)]"
    by (rule startJob_timers [OF job])
  have 1: "distinct (map fst (timers (startJob a w)))"
    using df(2) old_bd unfolding tms by auto
  have 2: "\<forall>t\<in>set (timers (startJob a w)).
      fst t < next_timeout (startJob a w) \<and> fst (snd t) < next_ref (startJob a w)"
    using old_bd assms
    unfolding tms startJob_next_timeout [OF job] startJob_frame
    by (auto simp: wellformed_def less_Suc_eq)
  have 3: "job_ok (startJob a w) b" if b: "b \<in> set (jobs_values w)" for b
  proof (cases "b = a")
    case True
    show ?thesis
      unfolding True
    proof (rule job_okI [where j = "job\<lparr>intervalId := Some (next_timeout w),
            nextRun := Some (js_add (Date_now w) ?P)\<rparr>"])
      show "heap (startJob a w) a = Some (job\<lparr>intervalId := Some (next_timeout w),
            nextRun := Some (js_add (Date_now w) ?P)\<rparr>)"
        by (simp add: startJob_heap [OF job])
    qed (use df(3) in \<open>auto simp: tms\<close>)
  next
    case False
    have "heap (startJob a w) b = heap w b"
      using False by (simp add: startJob_heap [OF job])
    moreover have "t \<in> set (timers (startJob a w)) \<longleftrightarrow> t \<in> set (disarmed job (timers w))"
      if "fst (snd t) = b" for t
      unfolding tms using False that by auto
    ultimately show ?thesis
      by (rule job_ok_other [OF assms job b False])
  qed
  show ?thesis
    using assms(1) 1 2 3 by (simp add: wellformed_def startJob_frame)
qed

lemma stop_body_wf:
  assumes "wellformed w" and "a \<in> set (jobs_values w)"
  shows "wellformed (stop_body a w)"
proof -
  from assms have oka: "job_ok w a"
    by (rule wellformed_job_ok)
  then obtain job where job: "heap w a = Some job"
    using job_ok_heap by blast
  note df = disarmed_facts [OF assms job]
  have bd: "\<forall>t\<in>set (timers w). fst t < next_timeout w \<and> fst (snd t) < next_ref w"
    using assms(1) by (simp add: wellformed_def)
  with df(1) have old_bd:
    "\<forall>t\<in>set (disarmed job (timers w)). fst t < next_timeout w \<and> fst (snd t) < next_ref w"
    by blast
  have tms: "timers (stop_body a w) = disarmed job (timers w)"
    by (rule stop_body_timers [OF job])
  have 3: "job_ok (stop_body a w) b" if b: "b \<in> set (jobs_values w)" for b
  proof (cases "b = a")
    case True
    show ?thesis
      unfolding True
    proof (rule job_okI [where j = "job\<lparr>intervalId := None\<rparr>"])
      show "heap (stop_body a w) a = Some (job\<lparr>intervalId := None\<rparr>)"
        by (simp add: stop_body_heap [OF job])
    qed (use df(3) in \<open>auto simp: tms\<close>)
  next
    case False
    have "heap (stop_body a w) b = heap w b"
      using False by (simp add: stop_body_heap [OF job])
    moreover have "t \<in> set (timers (stop_body a w)) \<longleftrightarrow> t \<in> set (disarmed job (timers w))"
      if "fst (snd t) = b" for t
      unfolding tms by simp
    ultimately show ?thesis
      by (rule job_ok_other [OF assms job b False])
  qed
  show ?thesis
    using assms(1) df(2) old_bd 3 by (simp add: wellformed_def stop_body_frame tms)
qed

lemma assign_wf:
  assumes "wellformed w" and "\<And>j. intervalId (f j) = intervalId j \<and> schedule (f j) = schedule j"
  shows "wellformed (assign a f w)"
proof -
  have "job_ok (assign a f w) b" if "job_ok w b" for b
    using that assms(2)
    by (auto simp: job_ok_def assign_def split: option.splits)
  then show ?thesis
    using assms(1) by (simp add: wellformed_def jobs_values_def assign_def)
qed

lemma fold_invariant:
  assumes "I S w" and "set xs \<subseteq> A"
    and step: "\<And>S a w. I S w \<Longrightarrow> a \<in> A \<Longrightarrow> I (insert a S) (f a w)"
  shows "I (S \<union> set xs) (fold f xs w)"
  using assms(1,2)
proof (induction xs arbitrary: S w)
  case Nil
  then show ?case by simp
next
  case (Cons x xs)
  then have "I (insert x S) (f x w)"
    by (simp add: step)
  from Cons.IH [OF this] Cons.prems(2) show ?case
    by simp
qed

lemma job_ok_cong:
  "heap w' b = heap w b \<Longrightarrow> timers w' = timers w \<Longrightarrow> job_ok w' b = job_ok w b"
  by (simp add: job_ok_def cong: option.case_cong)

lemma wellformed_cong:
  "jobs w' = jobs w \<Longrightarrow> heap w' = heap w \<Longrightarrow> timers w' = timers w \<Longrightarrow>
   next_ref w' = next_ref w \<Longrightarrow> next_timeout w' = next_timeout w \<Longrightarrow>
   wellformed w' = wellformed w"
  by (simp add: wellformed_def jobs_values_def job_ok_cong [of w' _ w])

lemma parity_cong:
  "jobs w' = jobs w \<Longrightarrow> heap w' = heap w \<Longrightarrow> running w' = running w \<Longrightarrow>
   parity w' = parity w"
  by (simp add: parity_def jobs_values_def)

lemma assign_parity:
  assumes "parity w" and "\<And>j. intervalId (f j) = intervalId j \<and> enabled (f j) = enabled j"
  shows "parity (assign a f w)"
  using assms by (auto simp: parity_def assign_def jobs_values_def)

lemma wellformed_stored:
  "wellformed w \<Longrightarrow> a \<in> set (jobs_values w) \<Longrightarrow> a < next_ref w \<and> (\<exists>j. heap w a = Some j)"
  by (simp add: wellformed_def job_ok_heap)

lemma map_of_stored: "map_of (jobs w) i = Some a \<Longrightarrow> a \<in> set (jobs_values w)"
  by (force simp: jobs_values_def dest: map_of_SomeD)

lemma init_invariant: "invariant (init t)"
  by (simp add: invariant_def wellformed_def parity_def init_def jobs_values_def)

subsection \<open>addJob\<close>

lemma update_values_subset: "set (map snd (AList.update k v xs)) \<subseteq> insert v (set (map snd xs))"
  by (induction xs) auto

lemma update_values_mem: "v \<in> set (map snd (AList.update k v xs))"
  by (induction xs) auto

lemma update_values_distinct:
  "distinct (map snd xs) \<Longrightarrow> v \<notin> set (map snd xs) \<Longrightarrow> distinct (map snd (AList.update k v xs))"
proof (induction xs)
  case Nil
  then show ?case by simp
next
  case (Cons x xs)
  with update_values_subset [of k v xs] show ?case
    by (cases x) auto
qed

lemma addJob_unfold:
  "addJob i n s act w =
     (let w2 = w\<lparr>heap := (heap w)(next_ref w \<mapsto>
                 \<lparr>jobId = i, name = n, schedule = s, action = act, enabled = True,
                  lastRun = None, nextRun = Some (js_add (Date_now w) (parseSchedule s)), status = Pending,
                  intervalId = None\<rparr>),
                next_ref := Suc (next_ref w),
                jobs := AList.update i (next_ref w) (jobs w)\<rparr>
      in (next_ref w, if running w then startJob (next_ref w) w2 else w2))"
  by (simp add: addJob_def Let_def calculateNextRun_def Date_now_def)

lemma addJob_invariant:
  assumes "invariant w"
  shows "invariant (snd (addJob i n s act w))"
proof -
  define a where "a = next_ref w"
  define job where "job = \<lparr>jobId = i, name = n, schedule = s, action = act, enabled = True,
      lastRun = None, nextRun = Some (js_add (Date_now w) (parseSchedule s)), status = Pending,
      intervalId = None\<rparr>"
  define w2 where "w2 = w\<lparr>heap := (heap w)(a \<mapsto> job), next_ref := Suc a,
      jobs := AList.update i a (jobs w)\<rparr>"
  have res: "snd (addJob i n s act w) = (if running w then startJob a w2 else w2)"
    by (simp add: addJob_unfold a_def job_def w2_def Let_def)
  from assms have wf: "wellformed w" and par: "parity w"
    by (simp_all add: invariant_def)
  have fresh: "a \<notin> set (jobs_values w)"
    using wellformed_stored [OF wf, of a] by (auto simp: a_def)
  have tfresh: "fst (snd t) \<noteq> a" if "t \<in> set (timers w)" for t
    using wf that by (auto simp: wellformed_def a_def)
  have vs2: "set (jobs_values w2) \<subseteq> insert a (set (jobs_values w))"
    using update_values_subset [of i a "jobs w"] by (simp add: w2_def jobs_values_def)
  have a2: "a \<in> set (jobs_values w2)"
    using update_values_mem [of a i "jobs w"] by (simp add: w2_def jobs_values_def)
  have ok2: "job_ok w2 b" if "b \<in> set (jobs_values w2)" for b
  proof (cases "b = a")
    case True
    show ?thesis
      unfolding True
      by (rule job_okI [where j = job]) (use tfresh in \<open>auto simp: w2_def job_def\<close>)
  next
    case False
    with that vs2 have b: "b \<in> set (jobs_values w)" by auto
    have "job_ok w2 b = job_ok w b"
      by (rule job_ok_cong) (use False in \<open>simp_all add: w2_def\<close>)
    with wellformed_job_ok [OF wf b] show ?thesis by simp
  qed
  have wf2: "wellformed w2"
    unfolding wellformed_def
  proof (intro conjI ballI)
    show "distinct (map fst (jobs w2))"
      using wf by (simp add: w2_def wellformed_def distinct_update)
    show "distinct (map snd (jobs w2))"
      using wf fresh by (simp add: w2_def wellformed_def update_values_distinct jobs_values_def)
    show "distinct (map fst (timers w2))"
      using wf by (simp add: w2_def wellformed_def)
    show "fst t < next_timeout w2" if "t \<in> set (timers w2)" for t
      using wf that by (simp add: w2_def wellformed_def)
    show "fst (snd t) < next_ref w2" if "t \<in> set (timers w2)" for t
      using wf that by (auto simp: w2_def wellformed_def a_def less_Suc_eq)
    show "b < next_ref w2" if "b \<in> set (jobs_values w2)" for b
      using that vs2 wellformed_stored [OF wf, of b] by (auto simp: w2_def a_def less_Suc_eq)
    show "job_ok w2 b" if "b \<in> set (jobs_values w2)" for b
      using that by (rule ok2)
  qed
  have others: "intervalId j \<noteq> None \<longleftrightarrow> running w \<and> enabled j"
    if "b \<in> set (jobs_values w2)" "b \<noteq> a" "heap w b = Some j" for b j
    using that vs2 par by (auto simp: parity_def)
  show ?thesis
  proof (cases "running w")
    case False
    have "parity w2"
      unfolding parity_def
    proof (intro ballI allI impI)
      fix b j assume b: "b \<in> set (jobs_values w2)" "heap w2 b = Some j"
      show "intervalId j \<noteq> None \<longleftrightarrow> running w2 \<and> enabled j"
      proof (cases "b = a")
        case True
        with b False show ?thesis by (auto simp: w2_def job_def)
      next
        case nb: False
        with b others [of b j] show ?thesis by (simp add: w2_def)
      qed
    qed
    with wf2 False show ?thesis
      by (simp add: res invariant_def)
  next
    case True
    have h2: "heap w2 a = Some job"
      by (simp add: w2_def)
    have r2: "running w2 = running w"
      by (simp add: w2_def)
    have o2: "heap w2 b = heap w b" if "b \<noteq> a" for b
      using that by (simp add: w2_def)
    have "parity (startJob a w2)"
      unfolding parity_def startJob_frame
    proof (intro ballI allI impI)
      fix b j assume b: "b \<in> set (jobs_values w2)" "heap (startJob a w2) b = Some j"
      show "intervalId j \<noteq> None \<longleftrightarrow> running w2 \<and> enabled j"
      proof (cases "b = a")
        case ba: True
        with b True show ?thesis
          by (auto simp: startJob_heap [OF h2] job_def r2)
      next
        case nb: False
        with b others [of b j] show ?thesis
          by (simp add: startJob_heap [OF h2] r2 o2)
      qed
    qed
    with startJob_wf [OF wf2 a2] True show ?thesis
      by (simp add: res invariant_def)
  qed
qed

subsection \<open>removeJob\<close>

lemma delete_values_subset: "set (map snd (AList.delete k xs)) \<subseteq> set (map snd xs)"
  by (auto simp: AList.delete_eq)

lemma delete_values_distinct: "distinct (map snd xs) \<Longrightarrow> distinct (map snd (AList.delete k xs))"
  by (simp add: AList.delete_eq distinct_map_filter)

lemma delete_values_other:
  assumes "distinct (map snd xs)" and "map_of xs k = Some v"
  shows "v \<notin> set (map snd (AList.delete k xs))"
proof
  assume "v \<in> set (map snd (AList.delete k xs))"
  then obtain k' where k': "(k', v) \<in> set xs" "k' \<noteq> k"
    by (auto simp: AList.delete_eq)
  from assms(2) have "(k, v) \<in> set xs"
    by (rule map_of_SomeD)
  with k' assms(1) show False
    by (metis distinct_map fst_conv inj_onD snd_conv)
qed

lemma removeJob_unfold:
  "map_of (jobs w) i = Some a \<Longrightarrow> heap w a = Some job \<Longrightarrow>
   removeJob i w =
     (True, w\<lparr>timers := disarmed job (timers w), jobs := AList.delete i (jobs w)\<rparr>)"
  by (simp add: removeJob_def Let_def clearInterval_def disarmed_def split: option.splits)

lemma removeJob_none: "map_of (jobs w) i = None \<Longrightarrow> removeJob i w = (False, w)"
  by (simp add: removeJob_def)

lemma removeJob_invariant:
  assumes "invariant w"
  shows "invariant (snd (removeJob i w))"
proof (cases "map_of (jobs w) i")
  case None
  with assms show ?thesis by (simp add: removeJob_none)
next
  case (Some a)
  from assms have wf: "wellformed w" and par: "parity w"
    by (simp_all add: invariant_def)
  have a: "a \<in> set (jobs_values w)"
    using Some by (rule map_of_stored)
  then obtain job where job: "heap w a = Some job"
    using wellformed_stored [OF wf] by blast
  note df = disarmed_facts [OF wf a job]
  define w' where "w' = w\<lparr>timers := disarmed job (timers w), jobs := AList.delete i (jobs w)\<rparr>"
  have res: "snd (removeJob i w) = w'"
    by (simp add: removeJob_unfold [OF Some job] w'_def)
  have sub: "set (jobs_values w') \<subseteq> set (jobs_values w)"
    using delete_values_subset [of i "jobs w"] by (simp add: w'_def jobs_values_def)
  have na: "a \<notin> set (jobs_values w')"
    using delete_values_other [OF _ Some] wf by (simp add: w'_def jobs_values_def wellformed_def)
  have bd: "\<forall>t\<in>set (timers w). fst t < next_timeout w \<and> fst (snd t) < next_ref w"
    using wf by (simp add: wellformed_def)
  have "wellformed w'"
    unfolding wellformed_def
  proof (intro conjI ballI)
    show "distinct (map fst (jobs w'))"
      using wf by (simp add: w'_def wellformed_def distinct_delete)
    show "distinct (map snd (jobs w'))"
      using wf by (simp add: w'_def wellformed_def delete_values_distinct)
    show "distinct (map fst (timers w'))"
      using df(2) by (simp add: w'_def)
    show "fst t < next_timeout w'" if "t \<in> set (timers w')" for t
      using that df(1) bd by (auto simp: w'_def)
    show "fst (snd t) < next_ref w'" if "t \<in> set (timers w')" for t
      using that df(1) bd by (auto simp: w'_def)
    show "b < next_ref w'" if "b \<in> set (jobs_values w')" for b
      using that sub wellformed_stored [OF wf, of b] by (auto simp: w'_def)
    show "job_ok w' b" if "b \<in> set (jobs_values w')" for b
    proof -
      from that sub na have b: "b \<in> set (jobs_values w)" "b \<noteq> a" by auto
      show ?thesis
        by (rule job_ok_other [OF wf a job b]) (simp_all add: w'_def)
    qed
  qed
  moreover have "parity w'"
    using par sub by (auto simp: parity_def w'_def)
  ultimately show ?thesis
    by (simp add: res invariant_def)
qed

subsection \<open>start and stop\<close>

lemma start_body_frame:
  "jobs (start_body a w) = jobs w" "jobs_values (start_body a w) = jobs_values w"
  "running (start_body a w) = running w" "next_ref (start_body a w) = next_ref w"
  "pending (start_body a w) = pending w" "clock (start_body a w) = clock w"
  "console (start_body a w) = console w" "arrays (start_body a w) = arrays w"
  "next_array (start_body a w) = next_array w"
  by (simp_all add: start_body_def startJob_frame split: option.splits)

lemma start_body_wf:
  "wellformed w \<Longrightarrow> a \<in> set (jobs_values w) \<Longrightarrow> wellformed (start_body a w)"
  by (simp add: start_body_def startJob_wf split: option.splits)

lemma start_body_heap:
  "heap w a = Some job \<Longrightarrow>
   heap (start_body a w) =
     (if enabled job
      then (heap w)(a \<mapsto> job\<lparr>intervalId := Some (next_timeout w),
                        nextRun := Some (js_add (Date_now w) (parseSchedule (schedule job)))\<rparr>)
      else heap w)"
  by (simp add: start_body_def startJob_heap)

lemma start_inv_step:
  assumes "start_inv vs S w" and "a \<in> set vs"
  shows "start_inv vs (insert a S) (start_body a w)"
proof -
  from assms have wf: "wellformed w" and vs: "jobs_values w = vs" and a: "a \<in> set (jobs_values w)"
    by (simp_all add: start_inv_def)
  obtain job where job: "heap w a = Some job"
    using wellformed_stored [OF wf a] by blast
  show ?thesis
    unfolding start_inv_def
  proof (intro conjI ballI allI impI)
    show "wellformed (start_body a w)"
      using wf a by (rule start_body_wf)
    show "jobs_values (start_body a w) = vs"
      using vs by (simp add: start_body_frame)
    show "running (start_body a w)"
      using assms(1) by (simp add: start_body_frame start_inv_def)
  next
    fix b j assume b: "b \<in> set vs" "heap (start_body a w) b = Some j"
    {
      assume "intervalId j \<noteq> None"
      with b assms(1) job show "enabled j"
        by (auto simp: start_body_heap [OF job] start_inv_def split: if_splits)
    }
    {
      assume "b \<in> insert a S" "enabled j"
      with b assms(1) job show "intervalId j \<noteq> None"
        by (auto simp: start_body_heap [OF job] start_inv_def split: if_splits)
    }
  qed
qed

lemma start_invariant:
  assumes "invariant w"
  shows "invariant (start w)"
proof -
  from assms have wf: "wellformed w" and par: "parity w"
    by (simp_all add: invariant_def)
  let ?w0 = "w\<lparr>running := True\<rparr>"
  have "wellformed ?w0"
    using wf wellformed_cong [of ?w0 w] by simp
  with par have "start_inv (jobs_values w) {} ?w0"
    by (auto simp: start_inv_def parity_def jobs_values_def)
  then have "start_inv (jobs_values w) ({} \<union> set (jobs_values w))
      (fold start_body (jobs_values w) ?w0)"
    by (rule fold_invariant [where A = "set (jobs_values w)"]) (simp_all add: start_inv_step)
  then have "start_inv (jobs_values w) (set (jobs_values w)) (start w)"
    by (simp add: start_def jobs_values_def)
  then show ?thesis
    by (auto simp: start_inv_def invariant_def parity_def)
qed

lemma stop_inv_step:
  assumes "stop_inv vs S w" and "a \<in> set vs"
  shows "stop_inv vs (insert a S) (stop_body a w)"
proof -
  from assms have wf: "wellformed w" and vs: "jobs_values w = vs" and a: "a \<in> set (jobs_values w)"
    by (simp_all add: stop_inv_def)
  obtain job where job: "heap w a = Some job"
    using wellformed_stored [OF wf a] by blast
  show ?thesis
    using assms(1) stop_body_wf [OF wf a]
    by (auto simp: stop_inv_def stop_body_frame stop_body_heap [OF job] split: if_splits)
qed

lemma stop_invariant:
  assumes "invariant w"
  shows "invariant (stop w)"
proof -
  from assms have wf: "wellformed w"
    by (simp add: invariant_def)
  let ?w0 = "w\<lparr>running := False\<rparr>"
  have "wellformed ?w0"
    using wf wellformed_cong [of ?w0 w] by simp
  then have "stop_inv (jobs_values w) {} ?w0"
    by (simp add: stop_inv_def jobs_values_def)
  then have "stop_inv (jobs_values w) ({} \<union> set (jobs_values w))
      (fold stop_body (jobs_values w) ?w0)"
    by (rule fold_invariant [where A = "set (jobs_values w)"]) (simp_all add: stop_inv_step)
  then have "stop_inv (jobs_values w) (set (jobs_values w)) (stop w)"
    by (simp add: stop_def jobs_values_def)
  then show ?thesis
    by (auto simp: stop_inv_def invariant_def parity_def)
qed

subsection \<open>enableJob and disableJob\<close>

lemma assign_stored: "jobs_values (assign a f w) = jobs_values w"
  by (simp add: assign_def jobs_values_def)

lemma enableJob_invariant:
  assumes "invariant w"
  shows "invariant (snd (enableJob i w))"
proof (cases "map_of (jobs w) i")
  case None
  with assms show ?thesis by (simp add: enableJob_def)
next
  case (Some a)
  from assms have wf: "wellformed w" and par: "parity w"
    by (simp_all add: invariant_def)
  have a: "a \<in> set (jobs_values w)"
    using Some by (rule map_of_stored)
  then obtain job where job: "heap w a = Some job"
    using wellformed_stored [OF wf] by blast
  define w1 where "w1 = assign a (\<lambda>j. j\<lparr>enabled := True\<rparr>) w"
  have res: "snd (enableJob i w) = (if running w then startJob a w1 else w1)"
    by (simp add: enableJob_def Some w1_def Let_def assign_def)
  have wf1: "wellformed w1"
    unfolding w1_def by (rule assign_wf [OF wf]) simp
  have a1: "a \<in> set (jobs_values w1)"
    using a by (simp add: w1_def assign_stored)
  have h1: "heap w1 = (heap w)(a \<mapsto> job\<lparr>enabled := True\<rparr>)"
    using job by (simp add: w1_def assign_def)
  have r1: "running w1 = running w" "jobs_values w1 = jobs_values w"
    by (simp_all add: w1_def assign_def jobs_values_def)
  show ?thesis
  proof (cases "running w")
    case False
    have "parity w1"
      using par False job a by (auto simp: parity_def h1 r1 split: if_splits)
    with wf1 False show ?thesis
      by (simp add: res invariant_def)
  next
    case True
    have hj: "heap w1 a = Some (job\<lparr>enabled := True\<rparr>)"
      by (simp add: h1)
    have "parity (startJob a w1)"
      using par True
      by (auto simp: parity_def startJob_frame startJob_heap [OF hj] h1 r1 split: if_splits)
    with startJob_wf [OF wf1 a1] True show ?thesis
      by (simp add: res invariant_def)
  qed
qed

lemma disableJob_invariant:
  assumes "invariant w"
  shows "invariant (snd (disableJob i w))"
proof (cases "map_of (jobs w) i")
  case None
  with assms show ?thesis by (simp add: disableJob_def)
next
  case (Some a)
  from assms have wf: "wellformed w" and par: "parity w"
    by (simp_all add: invariant_def)
  have a: "a \<in> set (jobs_values w)"
    using Some by (rule map_of_stored)
  then obtain job where job: "heap w a = Some job"
    using wellformed_stored [OF wf] by blast
  define w1 where "w1 = assign a (\<lambda>j. j\<lparr>enabled := False\<rparr>) w"
  have res: "snd (disableJob i w) = stop_body a w1"
    by (simp add: disableJob_def Some w1_def)
  have wf1: "wellformed w1"
    unfolding w1_def by (rule assign_wf [OF wf]) simp
  have a1: "a \<in> set (jobs_values w1)"
    using a by (simp add: w1_def assign_stored)
  have h1: "heap w1 = (heap w)(a \<mapsto> job\<lparr>enabled := False\<rparr>)"
    using job by (simp add: w1_def assign_def)
  have hj: "heap w1 a = Some (job\<lparr>enabled := False\<rparr>)"
    by (simp add: h1)
  have r1: "running w1 = running w" "jobs_values w1 = jobs_values w"
    by (simp_all add: w1_def assign_def jobs_values_def)
  have "parity (stop_body a w1)"
    using par
    by (auto simp: parity_def stop_body_frame stop_body_heap [OF hj] h1 r1 split: if_splits)
  with stop_body_wf [OF wf1 a1] show ?thesis
    by (simp add: res invariant_def)
qed

subsection \<open>Firings, the clock and the accessors\<close>

lemma fire_invariant:
  assumes "invariant w"
  shows "invariant (fire h w)"
proof -
  have "invariant ((assign a (\<lambda>j. j\<lparr>status := Running\<rparr>) w)\<lparr>pending := p\<rparr>)" for a p
  proof -
    let ?w1 = "assign a (\<lambda>j. j\<lparr>status := Running\<rparr>) w"
    have "wellformed ?w1" "parity ?w1"
      using assms by (simp_all add: invariant_def assign_wf assign_parity)
    moreover have "wellformed (?w1\<lparr>pending := p\<rparr>) = wellformed ?w1"
      by (rule wellformed_cong) simp_all
    moreover have "parity (?w1\<lparr>pending := p\<rparr>) = parity ?w1"
      by (rule parity_cong) simp_all
    ultimately show ?thesis
      by (simp add: invariant_def)
  qed
  with assms show ?thesis
    by (simp add: fire_def split: option.splits prod.splits)
qed

lemma invariant_cong:
  "jobs w' = jobs w \<Longrightarrow> heap w' = heap w \<Longrightarrow> timers w' = timers w \<Longrightarrow>
   next_ref w' = next_ref w \<Longrightarrow> next_timeout w' = next_timeout w \<Longrightarrow>
   running w' = running w \<Longrightarrow> invariant w' = invariant w"
  by (simp add: invariant_def wellformed_cong [of w' w] parity_cong [of w' w])

lemma assign_invariant:
  assumes "invariant w"
    and "\<And>j. intervalId (f j) = intervalId j \<and> schedule (f j) = schedule j \<and>
           enabled (f j) = enabled j"
  shows "invariant (assign a f w)"
  using assms by (simp add: invariant_def assign_wf assign_parity)

lemma settle_Inr: "\<exists>w'. settle k out w = Inr w'"
  by (simp add: settle_def Let_def split: sum.splits)

lemma settle_invariant:
  assumes "invariant w" and "settle k out w = Inr w'"
  shows "invariant w'"
proof (cases "k < length (pending w)")
  case False
  with assms show ?thesis by (simp add: settle_def)
next
  case True
  define a where "a = fst (pending w ! k)"
  define w1 where "w1 = w\<lparr>pending := take k (pending w) @ drop (Suc k) (pending w)\<rparr>"
  have i1: "invariant w1"
    using assms(1) invariant_cong [of w1 w] by (simp add: w1_def)
  show ?thesis
  proof (cases out)
    case Fulfilled
    let ?w2 = "assign a (\<lambda>j. j\<lparr>status := Completed\<rparr>) w1"
    have "invariant ?w2"
      by (rule assign_invariant [OF i1]) simp
    then have "invariant (assign a (\<lambda>j. j\<lparr>lastRun := Some (Date_now ?w2)\<rparr>) ?w2)"
      by (rule assign_invariant) simp
    with assms(2) True Fulfilled show ?thesis
      by (auto simp: settle_def try_block_def Let_def a_def w1_def)
  next
    case (Rejected e)
    let ?w2 = "assign a (\<lambda>j. j\<lparr>status := Failed\<rparr>) w1"
    have i2: "invariant ?w2"
      by (rule assign_invariant [OF i1]) simp
    have "invariant (?w2\<lparr>console := c\<rparr>)" for c
      using i2 invariant_cong [of "?w2\<lparr>console := c\<rparr>" ?w2] by simp
    with i2 have "invariant (catch_block a e w1)"
      by (simp add: catch_block_def Let_def split: option.splits)
    with assms(2) True Rejected show ?thesis
      by (auto simp: settle_def try_block_def Let_def a_def w1_def)
  qed
qed

lemma step_invariant: "invariant w \<Longrightarrow> invariant (step c w)"
proof (cases c)
  case (Settle k out)
  assume "invariant w"
  then show ?thesis
    using settle_invariant [of w k out] settle_Inr [of k out w]
    by (auto simp: Settle split: sum.splits)
next
  case GetAllJobs
  assume "invariant w"
  then show ?thesis
    using invariant_cong [of "snd (getAllJobs w)" w]
    by (simp add: GetAllJobs getAllJobs_def Array_new_def)
next
  case (GetJobsByStatus st)
  assume "invariant w"
  then show ?thesis
    using invariant_cong [of "snd (getJobsByStatus st w)" w]
    by (simp add: GetJobsByStatus getJobsByStatus_def getAllJobs_def Array_new_def Let_def)
next
  case (Advance d)
  assume "invariant w"
  then show ?thesis
    using invariant_cong [of "advance d w" w]
    by (simp add: Advance advance_def)
qed (simp_all add: addJob_invariant removeJob_invariant start_invariant stop_invariant
    enableJob_invariant disableJob_invariant fire_invariant)

lemma run_snoc: "run (cs @ [c]) w = step c (run cs w)"
  by (simp add: run_def)

lemma run_invariant: "invariant w \<Longrightarrow> invariant (run cs w)"
  by (induction cs rule: rev_induct) (simp_all add: run_snoc step_invariant, simp add: run_def)

subsection \<open>What addJob returns and stores\<close>

lemma addJob_fst: "fst (addJob i n s act w) = next_ref w"
  by (simp add: addJob_unfold Let_def)

lemma addJob_jobs: "jobs (snd (addJob i n s act w)) = AList.update i (next_ref w) (jobs w)"
  by (simp add: addJob_unfold Let_def startJob_frame)

lemma addJob_heap:
  "heap (snd (addJob i n s act w)) =
     (heap w)(next_ref w \<mapsto>
        \<lparr>jobId = i, name = n, schedule = s, action = act, enabled = True, lastRun = None,
         nextRun = Some (js_add (Date_now w) (parseSchedule s)), status = Pending,
         intervalId = (if running w then Some (next_timeout w) else None)\<rparr>)"
proof -
  let ?job = "\<lparr>jobId = i, name = n, schedule = s, action = act, enabled = True,
      lastRun = None, nextRun = Some (js_add (Date_now w) (parseSchedule s)), status = Pending,
      intervalId = None\<rparr>"
  let ?w2 = "w\<lparr>heap := (heap w)(next_ref w \<mapsto> ?job), next_ref := Suc (next_ref w),
      jobs := AList.update i (next_ref w) (jobs w)\<rparr>"
  have "heap ?w2 (next_ref w) = Some ?job"
    by simp
  from startJob_heap [OF this] show ?thesis
    by (simp add: addJob_unfold Let_def Date_now_def)
qed

lemma addJob_timers:
  "timers (snd (addJob i n s act w)) =
     (if running w then timers w @ [(next_timeout w, next_ref w, parseSchedule s)]
      else timers w)"
proof -
  let ?job = "\<lparr>jobId = i, name = n, schedule = s, action = act, enabled = True,
      lastRun = None, nextRun = Some (js_add (Date_now w) (parseSchedule s)), status = Pending,
      intervalId = None\<rparr>"
  let ?w2 = "w\<lparr>heap := (heap w)(next_ref w \<mapsto> ?job), next_ref := Suc (next_ref w),
      jobs := AList.update i (next_ref w) (jobs w)\<rparr>"
  have "heap ?w2 (next_ref w) = Some ?job"
    by simp
  from startJob_timers [OF this] show ?thesis
    by (simp add: addJob_unfold Let_def disarmed_def)
qed

lemma update_fresh: "map_of xs k = None \<Longrightarrow> AList.update k v xs = xs @ [(k, v)]"
  by (induction xs) (auto split: if_splits)

lemma run_init_invariant: "invariant (run cs (init t))"
  by (simp add: run_invariant init_invariant)

subsection \<open>At most one timer per stored job\<close>

lemma distinct_all_equal:
  assumes "distinct xs" and "\<And>y. y \<in> set xs \<Longrightarrow> y = x" and "x \<in> set xs"
  shows "xs = [x]"
proof (cases xs)
  case Nil
  with assms(3) show ?thesis by simp
next
  case (Cons y ys)
  have y: "y = x"
    using assms(2) [of y] Cons by simp
  have "ys = []"
  proof (rule ccontr)
    assume "ys \<noteq> []"
    then obtain z zs where z: "ys = z # zs"
      by (cases ys) simp_all
    with Cons assms(2) [of z] have "z = x" by simp
    with y z Cons assms(1) show False by simp
  qed
  with y Cons show ?thesis by simp
qed

lemma timers_of_single:
  assumes "invariant w" and a: "a \<in> set (jobs_values w)" and j: "heap w a = Some j"
  shows "timers_of a w =
     (case intervalId j of None \<Rightarrow> [] | Some h \<Rightarrow> [(h, a, parseSchedule (schedule j))])"
proof -
  from assms(1) have wf: "wellformed w"
    by (simp add: invariant_def)
  note ok = wellformed_job_ok [OF wf a]
  have "distinct (timers w)"
    using wf by (simp add: wellformed_def distinct_map)
  then have d: "distinct (timers_of a w)"
    by (simp add: timers_of_def)
  have el: "intervalId j = Some (fst t) \<and> t = (fst t, a, parseSchedule (schedule j))"
    if "t \<in> set (timers_of a w)" for t
  proof -
    from that have t: "t \<in> set (timers w)" "fst (snd t) = a"
      by (simp_all add: timers_of_def)
    from job_ok_timer [OF ok j t] t(2) show ?thesis
      by (simp add: prod_eq_iff)
  qed
  show ?thesis
  proof (cases "intervalId j")
    case None
    have "timers_of a w = []"
    proof (cases "timers_of a w")
      case Nil
      then show ?thesis .
    next
      case (Cons t ts)
      then have "t \<in> set (timers_of a w)" by simp
      from el [OF this] None show ?thesis by simp
    qed
    with None show ?thesis by simp
  next
    case (Some h)
    from job_ok_handle [OF ok j Some]
    have m: "(h, a, parseSchedule (schedule j)) \<in> set (timers_of a w)"
      by (simp add: timers_of_def)
    have "timers_of a w = [(h, a, parseSchedule (schedule j))]"
      using d _ m
    proof (rule distinct_all_equal)
      fix t assume "t \<in> set (timers_of a w)"
      from el [OF this] Some show "t = (h, a, parseSchedule (schedule j))"
        by simp
    qed
    with Some show ?thesis by simp
  qed
qed

lemma armed_iff:
  assumes "invariant w" and a: "a \<in> set (jobs_values w)"
  shows "armed w a \<longleftrightarrow> running w \<and> is_enabled w a"
proof -
  from assms(1) have wf: "wellformed w" and par: "parity w"
    by (simp_all add: invariant_def)
  obtain j where j: "heap w a = Some j"
    using wellformed_stored [OF wf a] by blast
  from par a j have p: "intervalId j \<noteq> None \<longleftrightarrow> running w \<and> enabled j"
    by (simp add: parity_def)
  show ?thesis
  proof (cases "intervalId j")
    case None
    with p j show ?thesis
      by (simp add: armed_def is_enabled_def)
  next
    case (Some h)
    from job_ok_handle [OF wellformed_job_ok [OF wf a] j Some]
    have "(h, a) \<in> set (map (\<lambda>t. (fst t, fst (snd t))) (timers w))"
      by force
    with p j Some show ?thesis
      by (simp add: armed_def is_enabled_def)
  qed
qed

subsection \<open>The effect of stop\<close>

lemma strip_idem: "strip (strip j) = strip j"
  by (simp add: strip_def)

lemma strip_None: "intervalId j = None \<Longrightarrow> strip j = j"
  by (cases j) (simp add: strip_def)

lemma stop_body_None:
  "Option.bind (heap w a) intervalId = None \<Longrightarrow> stop_body a w = w"
  by (simp add: stop_body_def)

lemma stop_eff_step:
  assumes "stop_eff w vs S w'"
  shows "stop_eff w vs (insert a S) (stop_body a w')"
proof (cases "heap w' a")
  case None
  then have "stop_body a w' = w'"
    by (simp add: stop_body_None)
  moreover from None assms have "heap w a = None"
    by (auto simp: stop_eff_def split: if_splits)
  ultimately show ?thesis
    using assms by (auto simp: stop_eff_def)
next
  case (Some job)
  have hp: "heap (stop_body a w') = (heap w')(a \<mapsto> strip job)"
    by (simp add: stop_body_heap [OF Some] strip_def)
  have tm: "timers (stop_body a w') = disarmed job (timers w')"
    by (rule stop_body_timers [OF Some])
  have sub: "set (disarmed job (timers w')) \<subseteq> set (timers w')"
    by (auto simp: disarmed_def split: option.splits)
  have gone: "h \<notin> fst ` set (disarmed job (timers w'))" if "intervalId job = Some h" for h
    using that by (auto simp: disarmed_def)
  have old: "strip job = strip j0 \<and> (a \<notin> S \<longrightarrow> job = j0)" if "heap w a = Some j0" for j0
    using assms Some that by (auto simp: stop_eff_def strip_idem split: if_splits)
  show ?thesis
    unfolding stop_eff_def
  proof (intro conjI allI ballI impI)
    fix b
    show "heap (stop_body a w') b =
        (if b \<in> insert a S then map_option strip (heap w b) else heap w b)"
    proof (cases "b = a")
      case True
      from assms Some obtain j0 where j0: "heap w a = Some j0"
        by (auto simp: stop_eff_def split: if_splits)
      with old [OF j0] show ?thesis
        by (simp add: True hp)
    next
      case False
      with assms show ?thesis
        by (simp add: hp stop_eff_def)
    qed
  next
    fix b j h
    assume b: "b \<in> insert a S" "heap w b = Some j" "intervalId j = Some h"
    show "h \<notin> fst ` set (timers (stop_body a w'))"
    proof (cases "b \<in> S")
      case True
      with assms b have "h \<notin> fst ` set (timers w')"
        by (simp add: stop_eff_def)
      with sub show ?thesis
        unfolding tm by blast
    next
      case False
      with b have "b = a" by simp
      with old [of j] b False have "job = j" by simp
      with gone [of h] b show ?thesis
        unfolding tm by simp
    qed
  qed (use assms sub in \<open>auto simp: stop_eff_def stop_body_frame tm\<close>)
qed

lemma stop_effect: "stop_eff w (jobs_values w) (set (jobs_values w)) (stop w)"
proof -
  let ?w0 = "w\<lparr>running := False\<rparr>"
  have "stop_eff w (jobs_values w) {} ?w0"
    by (simp add: stop_eff_def jobs_values_def)
  then have "stop_eff w (jobs_values w) ({} \<union> set (jobs_values w))
      (fold stop_body (jobs_values w) ?w0)"
    by (rule fold_invariant [where A = UNIV]) (simp_all add: stop_eff_step)
  then show ?thesis
    by (simp add: stop_def jobs_values_def)
qed

subsection \<open>The effect of start\<close>

lemma strip_rearm: "strip (rearm t (strip j)) = strip (rearm t j)"
  by (simp add: strip_def rearm_def)

lemma rearm_rearm: "strip (rearm t' (rearm t j)) = strip (rearm t' j)"
  by (simp add: strip_def rearm_def)

lemma strip_eq_fields:
  "strip j = strip j' \<Longrightarrow> enabled j = enabled j' \<and> schedule j = schedule j'"
proof -
  assume "strip j = strip j'"
  then have "enabled (strip j) = enabled (strip j')" "schedule (strip j) = schedule (strip j')"
    by simp_all
  then show ?thesis
    by (simp add: strip_def)
qed

lemma strip_eq_rearm: "strip j = strip j' \<Longrightarrow> strip (rearm t j) = strip (rearm t j')"
proof -
  assume e: "strip j = strip j'"
  have "strip (rearm t j) = strip (rearm t (strip j))"
    by (simp add: strip_rearm)
  also have "\<dots> = strip (rearm t (strip j'))"
    by (simp add: e)
  also have "\<dots> = strip (rearm t j')"
    by (simp add: strip_rearm)
  finally show ?thesis .
qed

lemma rearm_fields: "enabled (rearm t j) = enabled j" "schedule (rearm t j) = schedule j"
  by (simp_all add: rearm_def)

lemma start_effD:
  assumes "start_eff w S w'"
  shows "clock w' = clock w" and "next_timeout w \<le> next_timeout w'"
    and "\<And>t. t \<in> set (timers w') \<Longrightarrow> t \<in> set (timers w) \<or> next_timeout w \<le> fst t"
    and "\<And>a. map_option strip (heap w' a) =
           (if a \<in> S then map_option (\<lambda>j. strip (rearm (clock w) j)) (heap w a)
            else map_option strip (heap w a))"
    and "\<And>a j. a \<in> S \<Longrightarrow> heap w' a = Some j \<Longrightarrow> enabled j \<Longrightarrow>
           \<exists>h. intervalId j = Some h \<and> next_timeout w \<le> h"
  using assms unfolding start_eff_def by blast+

lemma start_eff_next:
  assumes e: "start_eff w S w'"
    and f1: "clock w'' = clock w'" and f2: "next_timeout w' \<le> next_timeout w''"
    and f3: "\<And>t. t \<in> set (timers w'') \<Longrightarrow> t \<in> set (timers w') \<or> next_timeout w' \<le> fst t"
    and f4: "\<And>b. b \<noteq> a \<Longrightarrow> heap w'' b = heap w' b"
    and f5: "map_option strip (heap w'' a) =
             map_option (\<lambda>j. strip (rearm (clock w) j)) (heap w a)"
    and f6: "\<And>j. heap w'' a = Some j \<Longrightarrow> enabled j \<Longrightarrow>
             \<exists>h. intervalId j = Some h \<and> next_timeout w' \<le> h"
  shows "start_eff w (insert a S) w''"
  unfolding start_eff_def
proof (intro conjI allI ballI impI)
  note d = start_effD [OF e]
  show "clock w'' = clock w"
    using f1 d(1) by simp
  show "next_timeout w \<le> next_timeout w''"
    using f2 d(2) by simp
  show "t \<in> set (timers w) \<or> next_timeout w \<le> fst t" if "t \<in> set (timers w'')" for t
    using f3 [OF that] d(2) d(3) [of t] by auto
  show "map_option strip (heap w'' b) =
      (if b \<in> insert a S then map_option (\<lambda>j. strip (rearm (clock w) j)) (heap w b)
       else map_option strip (heap w b))" for b
  proof (cases "b = a")
    case True
    with f5 show ?thesis by simp
  next
    case False
    with f4 [OF False] d(4) [of b] show ?thesis by simp
  qed
  show "\<exists>h. intervalId j = Some h \<and> next_timeout w \<le> h"
    if "b \<in> insert a S" "heap w'' b = Some j" "enabled j" for b j
  proof (cases "b = a")
    case True
    with f6 [of j] that d(2) show ?thesis by auto
  next
    case False
    with that f4 [OF False] d(5) [of b j] show ?thesis by simp
  qed
qed

lemma start_eff_step:
  assumes "start_eff w S w'"
  shows "start_eff w (insert a S) (start_body a w')"
proof (cases "heap w' a")
  case None
  note hr = start_effD(4) [OF assms, of a]
  from None have same: "start_body a w' = w'"
    by (simp add: start_body_def)
  from None hr have "heap w a = None"
    by (simp split: if_splits)
  with None show ?thesis
    unfolding same by (intro start_eff_next [OF assms]) simp_all
next
  case (Some job)
  note hr = start_effD(4) [OF assms, of a]
  with Some have "heap w a \<noteq> None"
    by (cases "heap w a") (auto split: if_splits)
  then obtain j0 where j0: "heap w a = Some j0"
    by auto
  from hr Some j0 have sj: "strip job = strip j0 \<or> strip job = strip (rearm (clock w) j0)"
    by (auto split: if_splits)
  have ck: "clock w' = clock w"
    by (rule start_effD(1) [OF assms])
  have sr: "strip (rearm (clock w) job) = strip (rearm (clock w) j0)"
  proof -
    from sj show ?thesis
    proof
      assume "strip job = strip j0"
      then show ?thesis by (rule strip_eq_rearm)
    next
      assume "strip job = strip (rearm (clock w) j0)"
      then have "strip (rearm (clock w) job) = strip (rearm (clock w) (rearm (clock w) j0))"
        by (rule strip_eq_rearm)
      then show ?thesis by (simp add: rearm_rearm)
    qed
  qed
  show ?thesis
  proof (cases "enabled job")
    case False
    then have same: "start_body a w' = w'"
      by (simp add: start_body_def Some)
    from False have "rearm (clock w) job = job"
      by (simp add: rearm_def)
    with sr have "strip job = strip (rearm (clock w) j0)"
      by simp
    with Some j0 False show ?thesis
      unfolding same by (intro start_eff_next [OF assms]) simp_all
  next
    case True
    let ?P = "parseSchedule (schedule job)"
    let ?job' = "job\<lparr>intervalId := Some (next_timeout w'), nextRun := Some (js_add (Date_now w') ?P)\<rparr>"
    have sb: "start_body a w' = startJob a w'"
      using True by (simp add: start_body_def Some)
    have hp: "heap (start_body a w') = (heap w')(a \<mapsto> ?job')"
      unfolding sb by (rule startJob_heap [OF Some])
    have tm: "timers (start_body a w') = disarmed job (timers w') @ [(next_timeout w', a, ?P)]"
      unfolding sb by (rule startJob_timers [OF Some])
    have nt: "next_timeout (start_body a w') = Suc (next_timeout w')"
      unfolding sb by (rule startJob_next_timeout [OF Some])
    have sub: "set (disarmed job (timers w')) \<subseteq> set (timers w')"
      by (auto simp: disarmed_def split: option.splits)
    have s': "strip ?job' = strip (rearm (clock w) j0)"
      using sr True by (simp add: strip_def rearm_def ck Date_now_def)
    show ?thesis
    proof (rule start_eff_next [OF assms])
      show "clock (start_body a w') = clock w'"
        by (simp add: start_body_frame)
      show "next_timeout w' \<le> next_timeout (start_body a w')"
        by (simp add: nt)
      show "t \<in> set (timers w') \<or> next_timeout w' \<le> fst t"
        if "t \<in> set (timers (start_body a w'))" for t
        using that sub unfolding tm by auto
      show "heap (start_body a w') b = heap w' b" if "b \<noteq> a" for b
        using that by (simp add: hp)
      show "map_option strip (heap (start_body a w') a) =
          map_option (\<lambda>j. strip (rearm (clock w) j)) (heap w a)"
        using s' j0 by (simp add: hp)
      show "\<exists>h. intervalId j = Some h \<and> next_timeout w' \<le> h"
        if "heap (start_body a w') a = Some j" for j
        using that by (auto simp: hp)
    qed
  qed
qed

lemma start_effect: "start_eff w (set (jobs_values w)) (start w)"
proof -
  let ?w0 = "w\<lparr>running := True\<rparr>"
  have "start_eff ?w0 {} ?w0"
    by (simp add: start_eff_def)
  then have "start_eff ?w0 ({} \<union> set (jobs_values w)) (fold start_body (jobs_values w) ?w0)"
    by (rule fold_invariant [where A = UNIV]) (simp_all add: start_eff_step)
  then show ?thesis
    by (simp add: start_def jobs_values_def start_eff_def)
qed

lemma start_frame: "jobs (start w) = jobs w" "running (start w)" "jobs_values (start w) = jobs_values w"
proof -
  have "jobs (fold start_body xs v) = jobs v \<and> running (fold start_body xs v) = running v" for xs and v :: "'a world"
    by (induction xs arbitrary: v) (simp_all add: start_body_frame)
  then show "jobs (start w) = jobs w" "running (start w)"
    by (simp_all add: start_def)
  then show "jobs_values (start w) = jobs_values w"
    by (simp add: jobs_values_def)
qed

subsection \<open>What a caller can observe after start\<close>

lemma advance_invariant: "invariant w \<Longrightarrow> invariant (advance d w)"
  using invariant_cong [of "advance d w" w] by (simp add: advance_def)

lemma start_heap_stored:
  assumes "invariant w" and a: "a \<in> set (jobs_values w)"
  obtains j0 j1 where "heap w a = Some j0" and "heap (start w) a = Some j1"
    and "strip j1 = strip (rearm (clock w) j0)"
    and "enabled j1 = enabled j0" and "schedule j1 = schedule j0"
proof -
  from assms(1) have wf: "wellformed w"
    by (simp add: invariant_def)
  obtain j0 where j0: "heap w a = Some j0"
    using wellformed_stored [OF wf a] by blast
  from start_effD(4) [OF start_effect [of w], of a] a j0
  have "map_option strip (heap (start w) a) = Some (strip (rearm (clock w) j0))"
    by simp
  then obtain j1 where j1: "heap (start w) a = Some j1" "strip j1 = strip (rearm (clock w) j0)"
    by (cases "heap (start w) a") auto
  from strip_eq_fields [OF j1(2)] have "enabled j1 = enabled j0" "schedule j1 = schedule j0"
    by (simp_all add: rearm_fields)
  with j0 j1 that show thesis
    by blast
qed

lemma observe_start:
  assumes "invariant w"
  shows "observe (start w) =
     (True, map (\<lambda>(i, a). (i, map_option (\<lambda>j. strip (rearm (clock w) j)) (heap w a),
                           periods (heap w a))) (jobs w))"
proof -
  have inv': "invariant (start w)"
    using assms by (rule start_invariant)
  then have par': "parity (start w)"
    by (simp add: invariant_def)
  have "(i, map_option strip (heap (start w) a), map (\<lambda>t. snd (snd t)) (timers_of a (start w))) =
      (i, map_option (\<lambda>j. strip (rearm (clock w) j)) (heap w a), periods (heap w a))"
    if "(i, a) \<in> set (jobs w)" for i a
  proof -
    from that have a: "a \<in> set (jobs_values w)"
      by (force simp: jobs_values_def)
    then have a': "a \<in> set (jobs_values (start w))"
      by (simp add: start_frame)
    from assms a obtain j0 j1 where j: "heap w a = Some j0" "heap (start w) a = Some j1"
      "strip j1 = strip (rearm (clock w) j0)" "enabled j1 = enabled j0"
      "schedule j1 = schedule j0"
      by (rule start_heap_stored)
    from par' a' j(2) have p: "intervalId j1 \<noteq> None \<longleftrightarrow> enabled j1"
      by (simp add: parity_def start_frame)
    have "map (\<lambda>t. snd (snd t)) (timers_of a (start w)) = periods (heap w a)"
      using p j by (auto simp: timers_of_single [OF inv' a' j(2)] periods_def)
    with j show ?thesis
      by simp
  qed
  then show ?thesis
    by (auto simp: observe_def start_frame)
qed

lemma observe_restart:
  assumes "invariant w"
  shows "observe (start (advance d (start w))) = observe (start (advance d w))"
proof -
  let ?T = "clock w + int d"
  have i1: "invariant (advance d (start w))" and i2: "invariant (advance d w)"
    using assms by (simp_all add: advance_invariant start_invariant)
  have "map_option (\<lambda>j. strip (rearm ?T j)) (heap (start w) a) =
        map_option (\<lambda>j. strip (rearm ?T j)) (heap w a) \<and>
        periods (heap (start w) a) = periods (heap w a)"
    if "(i, a) \<in> set (jobs w)" for i a
  proof -
    from that have a: "a \<in> set (jobs_values w)"
      by (force simp: jobs_values_def)
    from assms a obtain j0 j1 where j: "heap w a = Some j0" "heap (start w) a = Some j1"
      "strip j1 = strip (rearm (clock w) j0)" "enabled j1 = enabled j0"
      "schedule j1 = schedule j0"
      by (rule start_heap_stored)
    from strip_eq_rearm [OF j(3), of ?T]
    have "strip (rearm ?T j1) = strip (rearm ?T j0)"
      by (simp add: rearm_rearm)
    with j show ?thesis
      by (simp add: periods_def)
  qed
  then have eq: "map (\<lambda>(i, a). (i, map_option (\<lambda>j. strip (rearm ?T j)) (heap (start w) a),
        periods (heap (start w) a))) (jobs w) =
      map (\<lambda>(i, a). (i, map_option (\<lambda>j. strip (rearm ?T j)) (heap w a),
        periods (heap w a))) (jobs w)"
    by (intro map_cong) auto
  have c: "clock (start w) = clock w"
    using start_effD(1) [OF start_effect [of w]] by simp
  have l: "jobs (advance d (start w)) = jobs w" "heap (advance d (start w)) = heap (start w)"
    "clock (advance d (start w)) = ?T"
    by (simp_all add: advance_def start_frame c)
  have r: "jobs (advance d w) = jobs w" "heap (advance d w) = heap w"
    "clock (advance d w) = ?T"
    by (simp_all add: advance_def)
  show ?thesis
    unfolding observe_start [OF i1] observe_start [OF i2] l r eq ..
qed

lemma advance_zero: "advance 0 w = w"
  by (simp add: advance_def)

lemma restart_handle:
  assumes "invariant w" and a: "a \<in> set (jobs_values w)"
    and j: "heap (start w) a = Some j" and h: "intervalId j = Some h"
  shows "h \<notin> fst ` set (timers (start (start w)))" and "armed (start (start w)) a"
proof -
  let ?w1 = "start w" and ?w2 = "start (start w)"
  have i1: "invariant ?w1"
    using assms(1) by (rule start_invariant)
  then have i2: "invariant ?w2"
    by (rule start_invariant)
  from i1 i2 have wf1: "wellformed ?w1" and par1: "parity ?w1" and wf2: "wellformed ?w2"
    by (simp_all add: invariant_def)
  have a1: "a \<in> set (jobs_values ?w1)" and a2: "a \<in> set (jobs_values ?w2)"
    using a by (simp_all add: start_frame)
  from par1 a1 j h have en: "enabled j"
    by (auto simp: parity_def)
  from job_ok_handle [OF wellformed_job_ok [OF wf1 a1] j h]
  have m: "(h, a, parseSchedule (schedule j)) \<in> set (timers ?w1)" .
  with wf1 have hlt: "h < next_timeout ?w1"
    by (auto simp: wellformed_def)
  note eff = start_effD [OF start_effect [of ?w1]]
  from i1 a1 obtain j2 where j2: "heap ?w2 a = Some j2" "enabled j2 = enabled j"
    using j by (auto elim: start_heap_stored)
  from eff(5) [OF a1 j2(1)] j2(2) en obtain h2 where h2: "intervalId j2 = Some h2"
    "next_timeout ?w1 \<le> h2"
    by auto
  show "h \<notin> fst ` set (timers ?w2)"
  proof
    assume "h \<in> fst ` set (timers ?w2)"
    then obtain t where t: "t \<in> set (timers ?w2)" "fst t = h"
      by auto
    from eff(3) [OF t(1)] t(2) hlt have "t \<in> set (timers ?w1)"
      by auto
    from key_unique [OF _ this m] wf1 t(2) have "t = (h, a, parseSchedule (schedule j))"
      by (simp add: wellformed_def)
    then have "fst (snd t) = a"
      by simp
    from job_ok_timer [OF wellformed_job_ok [OF wf2 a2] j2(1) t(1) this] t(2) h2 hlt
    show False
      by simp
  qed
  from armed_iff [OF i2 a2] j2 en show "armed ?w2 a"
    by (simp add: is_enabled_def start_frame)
qed

lemma timers_of_le_one:
  assumes "invariant w" and a: "a \<in> set (jobs_values w)"
  shows "length (timers_of a w) \<le> 1"
proof -
  from assms(1) have "wellformed w"
    by (simp add: invariant_def)
  from wellformed_stored [OF this a] obtain j where "heap w a = Some j"
    by blast
  from timers_of_single [OF assms this] show ?thesis
    by (simp split: option.splits)
qed

lemma stop_frame_stored:
  assumes "invariant w" and a: "a \<in> set (jobs_values w)"
  shows "\<exists>j. heap w a = Some j \<and> heap (stop w) a = Some (j\<lparr>intervalId := None\<rparr>) \<and>
    (\<forall>h. intervalId j = Some h \<longrightarrow> h \<notin> fst ` set (timers (stop w))) \<and>
    timers_of a (stop w) = []"
proof -
  from assms(1) have wf: "wellformed w"
    by (simp add: invariant_def)
  obtain j where j: "heap w a = Some j"
    using wellformed_stored [OF wf a] by blast
  have eff: "stop_eff w (jobs_values w) (set (jobs_values w)) (stop w)"
    by (rule stop_effect)
  then have hp: "heap (stop w) a = Some (strip j)"
    using a j by (simp add: stop_eff_def)
  have gone: "h \<notin> fst ` set (timers (stop w))" if "intervalId j = Some h" for h
    using eff a j that unfolding stop_eff_def by blast
  have a': "a \<in> set (jobs_values (stop w))"
    using eff a by (simp add: stop_eff_def)
  from timers_of_single [OF stop_invariant [OF assms(1)] a' hp]
  have "timers_of a (stop w) = []"
    by (simp add: strip_def)
  with j hp gone show ?thesis
    by (simp add: strip_def)
qed

section \<open>The claims\<close>

text \<open>
  \<^bold>\<open>C1\<close> (arm/disarm parity). In every state reached from the empty registry by calls of
  the public operations (with timer firings, settled actions and clock ticks in between),
  and for every job stored in the registry: the job records a handle if and only if the
  scheduler is running and the job is enabled; the runtime has an active timer with a
  callback on the job if and only if the scheduler is running and the job is enabled;
  and the active timers on the job are exactly the one timer whose handle the job
  records, with the period of its schedule, or none when it records no handle. So a
  stopped or disabled job has neither a live timer nor a stale handle, and a running,
  enabled job has one timer, not two. The calls are unrestricted: the statement covers
  the sequences that add each id once as well as those that reuse an id.
\<close>

theorem arm_parity:
  assumes "w = run cs (init t)" and "getJob i w = Some a"
  shows "\<exists>j. heap w a = Some j \<and>
           (intervalId j \<noteq> None \<longleftrightarrow> running w \<and> enabled j) \<and>
           (timers_of a w \<noteq> [] \<longleftrightarrow> running w \<and> enabled j) \<and>
           timers_of a w =
             (case intervalId j of
                None \<Rightarrow> []
              | Some h \<Rightarrow> [(h, a, parseSchedule (schedule j))]) \<and>
           (armed w a \<longleftrightarrow> running w \<and> is_enabled w a)"
proof -
  have i: "invariant w"
    unfolding assms(1) by (rule run_init_invariant)
  then have wf: "wellformed w" and par: "parity w"
    by (simp_all add: invariant_def)
  from assms(2) have a: "a \<in> set (jobs_values w)"
    by (simp add: getJob_def map_of_stored)
  obtain j where j: "heap w a = Some j"
    using wellformed_stored [OF wf a] by blast
  from par a j have p: "intervalId j \<noteq> None \<longleftrightarrow> running w \<and> enabled j"
    by (simp add: parity_def)
  note t = timers_of_single [OF i a j]
  from t p have "timers_of a w \<noteq> [] \<longleftrightarrow> running w \<and> enabled j"
    by (cases "intervalId j") simp_all
  with j p t armed_iff [OF i a] show ?thesis
    by blast
qed

theorem arm_parity_witness:
  "getJob ''a'' ex_world = Some 0 \<and> getJob ''b'' ex_world = Some 1 \<and> running ex_world \<and>
   \<not> is_enabled ex_world 0 \<and> Option.bind (heap ex_world 0) intervalId = None \<and>
   timers_of 0 ex_world = [] \<and> \<not> armed ex_world 0 \<and>
   is_enabled ex_world 1 \<and> Option.bind (heap ex_world 1) intervalId = Some 1 \<and>
   timers_of 1 ex_world = [(1, 1, Num 7200000)] \<and> armed ex_world 1"
proof -
  have g: "getJob ''a'' ex_world = Some 0" "getJob ''b'' ex_world = Some (Suc 0)"
    by code_simp+
  have e: "running ex_world" "\<not> is_enabled ex_world 0" "is_enabled ex_world (Suc 0)"
    "Option.bind (heap ex_world 0) intervalId = None"
    "Option.bind (heap ex_world (Suc 0)) intervalId = Some (Suc 0)"
    "Option.bind (heap ex_world (Suc 0)) (\<lambda>j. Some (schedule j)) = Some ''2h''"
    by code_simp+
  have p: "parseSchedule ''2h'' = Num 7200000"
    by code_simp
  from arm_parity [OF ex_world_def g(1)] arm_parity [OF ex_world_def g(2)] g e p
  show ?thesis
    by (auto simp: is_enabled_def)
qed

text \<open>
  \<^bold>\<open>C2\<close> (interval interpretation). The source computes in double-precision numbers,
  so a matched value \<open>n\<close> does not always yield \<open>n\<close> times the unit: for the schedule
  \<open>4803839602529\<close> (minutes) the product \<open>288230376151740000\<close> is no double, and
  \<open>parseSchedule\<close> returns \<open>288230376151740032\<close>; for \<open>9007199254740993\<close> already
  \<open>parseInt\<close> rounds.
\<close>

theorem parseSchedule_counterexample:
  "in_grammar ''4803839602529'' \<and>
   decimal ''4803839602529'' * 60000 = 288230376151740000 \<and>
   parseSchedule ''4803839602529'' = Num 288230376151740032 \<and>
   parseSchedule ''4803839602529'' \<noteq> Num (decimal ''4803839602529'' * 60000) \<and>
   decimal ''9007199254740993'' = 9007199254740993 \<and>
   parseInt ''9007199254740993'' = Num 9007199254740992 \<and>
   parseSchedule ''9007199254740993'' \<noteq> Num (decimal ''9007199254740993'' * 60000)"
proof -
  have a: "in_grammar ''4803839602529''"
    "decimal ''4803839602529'' * 60000 = 288230376151740000"
    "parseSchedule ''4803839602529'' = Num 288230376151740032"
    by code_simp+
  have b: "decimal ''9007199254740993'' = 9007199254740993"
    "parseInt ''9007199254740993'' = Num 9007199254740992"
    "parseSchedule ''9007199254740993'' = Num 540431955284459520000"
    by code_simp+
  from a b show ?thesis
    by simp
qed

text \<open>
  \<^bold>\<open>C2\<close>, as the code has it. \<open>parseSchedule\<close>, the regular-expression matcher of the
  source followed by \<open>parseInt\<close> and the \<open>switch\<close>, follows the grammar
  \<open>^(\d+)(m|h|d)?$\<close>: a string outside the grammar (the empty string included) gives
  60000; a digit string \<open>ds\<close> alone counts minutes; \<open>ds\<close> followed by \<open>m\<close>, \<open>h\<close> or \<open>d\<close>
  gives its decimal value times 60000, 3600000 or 86400000, whenever that product is
  below \<open>2 ^ 53\<close>. In that range, which holds every schedule of at most eight
  characters, \<open>parseSchedule\<close> is the function \<open>interval\<close> of the specification. The six
  rows of the parsing table are instances.
\<close>

theorem parseSchedule_grammar:
  "(\<not> in_grammar s \<longrightarrow> parseSchedule s = Num 60000) \<and>
   (interval s < 2 ^ 53 \<longrightarrow> parseSchedule s = Num (interval s)) \<and>
   (length s \<le> 8 \<longrightarrow> parseSchedule s = Num (interval s)) \<and>
   (digits ds \<and> decimal ds * 60000 < 2 ^ 53 \<longrightarrow>
      parseSchedule ds = Num (decimal ds * 60000) \<and>
      parseSchedule (ds @ ''m'') = Num (decimal ds * 60000)) \<and>
   (digits ds \<and> decimal ds * 3600000 < 2 ^ 53 \<longrightarrow>
      parseSchedule (ds @ ''h'') = Num (decimal ds * 3600000)) \<and>
   (digits ds \<and> decimal ds * 86400000 < 2 ^ 53 \<longrightarrow>
      parseSchedule (ds @ ''d'') = Num (decimal ds * 86400000)) \<and>
   parseSchedule ''5m'' = Num 300000 \<and> parseSchedule ''2h'' = Num 7200000 \<and>
   parseSchedule ''1d'' = Num 86400000 \<and> parseSchedule ''10'' = Num 600000 \<and>
   parseSchedule ''abc'' = Num 60000 \<and> parseSchedule '''' = Num 60000"
proof -
  have 1: "parseSchedule s = Num (interval s)" if "interval s < 2 ^ 53"
    using that by (rule parseSchedule_exact)
  have 2: "parseSchedule s = Num 60000" if "\<not> in_grammar s"
    using that by (rule parseSchedule_outside)
  have 3: "parseSchedule ds = Num (decimal ds * 60000)"
    if "digits ds" "decimal ds * 60000 < 2 ^ 53"
    using that by (rule parseSchedule_digits)
  have 4: "parseSchedule (ds @ [u]) = Num (decimal ds * unit_ms u)"
    if "digits ds" "u \<in> set ''mhd''" "decimal ds * unit_ms u < 2 ^ 53" for u
    using that by (rule parseSchedule_digits_unit)
  have 5: "parseSchedule ''5m'' = Num 300000" "parseSchedule ''2h'' = Num 7200000"
    "parseSchedule ''1d'' = Num 86400000" "parseSchedule ''10'' = Num 600000"
    "parseSchedule ''abc'' = Num 60000" "parseSchedule '''' = Num 60000"
    by code_simp+
  from 4 [of "CHR ''m''"] have 6: "digits ds \<and> decimal ds * 60000 < 2 ^ 53 \<longrightarrow>
      parseSchedule (ds @ ''m'') = Num (decimal ds * 60000)"
    by (simp add: unit_ms_def)
  from 4 [of "CHR ''h''"] have 7: "digits ds \<and> decimal ds * 3600000 < 2 ^ 53 \<longrightarrow>
      parseSchedule (ds @ ''h'') = Num (decimal ds * 3600000)"
    by (simp add: unit_ms_def)
  from 4 [of "CHR ''d''"] have 8: "digits ds \<and> decimal ds * 86400000 < 2 ^ 53 \<longrightarrow>
      parseSchedule (ds @ ''d'') = Num (decimal ds * 86400000)"
    by (simp add: unit_ms_def)
  have 9: "parseSchedule s = Num (interval s)" if "length s \<le> 8"
    using that by (rule parseSchedule_exact_range)
  from 1 2 3 5 6 7 8 9 show ?thesis
    by blast
qed

theorem parseSchedule_grammar_witness:
  "\<not> in_grammar ''1.5h'' \<and> interval ''1.5h'' < 2 ^ 53 \<and> length ''1.5h'' \<le> 8 \<and>
   interval ''1.5h'' = 60000 \<and> parseSchedule ''1.5h'' = Num 60000 \<and>
   digits ''007'' \<and> decimal ''007'' = 7 \<and> decimal ''007'' * 86400000 < 2 ^ 53 \<and>
   parseSchedule ''007'' = Num 420000 \<and> parseSchedule ''007m'' = Num 420000 \<and>
   parseSchedule ''007h'' = Num 25200000 \<and> parseSchedule ''007d'' = Num 604800000"
proof -
  have a: "\<not> in_grammar ''1.5h''" "interval ''1.5h'' = 60000" "digits ''007''"
    "decimal ''007'' = 7"
    by code_simp+
  from parseSchedule_grammar [of "''1.5h''" "''007''"] a show ?thesis
    by simp
qed

text \<open>
  \<^bold>\<open>C3\<close> (one firing). Let the timer \<open>h\<close> be active with its callback closed over the job
  object \<open>a\<close>. If the job is disabled when the timer fires, the callback returns at once:
  the world is unchanged, so no status is written and the action is not called. Otherwise
  \<open>fire\<close> writes \<open>status = running\<close> and calls the action, leaving the callback suspended
  at the \<open>await\<close>. When the promise settles (\<open>settle\<close>, on whatever world \<open>v\<close> the
  suspended callback finds, with the job then holding \<open>j\<close>): on fulfilment the job gets
  \<open>status = completed\<close> and \<open>lastRun = Date.now()\<close>; on rejection it gets
  \<open>status = failed\<close>, every other field including \<open>lastRun\<close> keeps its value, and the
  error goes to \<open>console.error\<close>. In both cases the callback ends normally (\<open>Inr\<close>): the
  rejection is caught, not passed on.
\<close>

theorem firing:
  assumes "map_of (timers w) h = Some (a, ms)" and "heap w a = Some job"
    and "k < length (pending v)" and "fst (pending v ! k) = a" and "heap v a = Some j"
  shows "(\<not> enabled job \<longrightarrow> fire h w = w) \<and>
         (enabled job \<longrightarrow>
            fire h w = w\<lparr>heap := (heap w)(a \<mapsto> job\<lparr>status := Running\<rparr>),
                         pending := pending w @ [(a, action job)]\<rparr>) \<and>
         settle k Fulfilled v =
           Inr (v\<lparr>pending := take k (pending v) @ drop (Suc k) (pending v),
                  heap := (heap v)(a \<mapsto> j\<lparr>status := Completed,
                                           lastRun := Some (Date_now v)\<rparr>)\<rparr>) \<and>
         settle k (Rejected e) v =
           Inr (v\<lparr>pending := take k (pending v) @ drop (Suc k) (pending v),
                  heap := (heap v)(a \<mapsto> j\<lparr>status := Failed\<rparr>),
                  console := console v @ [(''Job '' @ jobId j @ '' failed:'', e)]\<rparr>) \<and>
         (\<exists>v'. settle k out v = Inr v')"
proof -
  have 1: "fire h w = w" if "\<not> enabled job"
    using assms(1,2) that by (simp add: fire_def)
  have 2: "fire h w = w\<lparr>heap := (heap w)(a \<mapsto> job\<lparr>status := Running\<rparr>),
      pending := pending w @ [(a, action job)]\<rparr>" if "enabled job"
    using assms(1,2) that by (simp add: fire_def assign_def)
  have 3: "settle k Fulfilled v =
      Inr (v\<lparr>pending := take k (pending v) @ drop (Suc k) (pending v),
             heap := (heap v)(a \<mapsto> j\<lparr>status := Completed, lastRun := Some (Date_now v)\<rparr>)\<rparr>)"
    using assms(3-5)
    by (simp add: settle_def try_block_def Let_def assign_def Date_now_def)
  have 4: "settle k (Rejected e) v =
      Inr (v\<lparr>pending := take k (pending v) @ drop (Suc k) (pending v),
             heap := (heap v)(a \<mapsto> j\<lparr>status := Failed\<rparr>),
             console := console v @ [(''Job '' @ jobId j @ '' failed:'', e)]\<rparr>)"
    using assms(3-5)
    by (simp add: settle_def try_block_def catch_block_def Let_def assign_def)
  from 1 2 3 4 settle_Inr [of k out v] show ?thesis
    by blast
qed

theorem firing_witness:
  "map_of (timers ex_muted) 1 = Some (1, Num 7200000) \<and>
   map_option enabled (heap ex_muted 1) = Some False \<and> fire 1 ex_muted = ex_muted \<and>
   map_of (timers ex_world) 1 = Some (1, Num 7200000) \<and>
   map_option enabled (heap ex_world 1) = Some True \<and>
   map_option status (heap (fire 1 ex_world) 1) = Some Running \<and>
   pending (fire 1 ex_world) = [(1, 2)] \<and>
   (\<exists>v. settle 0 Fulfilled (fire 1 ex_world) = Inr v \<and>
        map_option status (heap v 1) = Some Completed \<and>
        map_option lastRun (heap v 1) = Some (Some (Num 1000)) \<and> pending v = []) \<and>
   (\<exists>v. settle 0 (Rejected ''boom'') (fire 1 ex_world) = Inr v \<and>
        map_option status (heap v 1) = Some Failed \<and>
        map_option lastRun (heap v 1) = Some None \<and>
        console v = [(''Job b failed:'', ''boom'')])"
proof -
  define job :: "nat ScheduledJob" where
    "job = \<lparr>jobId = ''b'', name = ''B'', schedule = ''2h'', action = 2, enabled = True,
       lastRun = None, nextRun = Some (Num 7201000), status = Pending, intervalId = Some 1\<rparr>"
  have t: "map_of (timers ex_world) (Suc 0) = Some (Suc 0, Num 7200000)"
    by code_simp
  have hp: "heap ex_world (Suc 0) = Some job"
    unfolding job_def by code_simp
  have e: "pending ex_world = []" "Date_now ex_world = Num 1000" "console ex_world = []"
    by code_simp+
  have dn: "Date_now (ex_world\<lparr>heap := x, pending := y\<rparr>) = Date_now ex_world" for x y
    by (simp add: Date_now_def)
  have f: "fire (Suc 0) ex_world =
      ex_world\<lparr>heap := (heap ex_world)(Suc 0 \<mapsto> job\<lparr>status := Running\<rparr>),
      pending := pending ex_world @ [(Suc 0, action job)]\<rparr>"
    by (simp add: fire_def t hp assign_def job_def)
  let ?v = "fire (Suc 0) ex_world"
  have v: "0 < length (pending ?v)" "fst (pending ?v ! 0) = Suc 0"
    "heap ?v (Suc 0) = Some (job\<lparr>status := Running\<rparr>)"
    by (simp_all add: f e)
  have tm: "map_of (timers ex_muted) (Suc 0) = Some (Suc 0, Num 7200000)"
    using t by (simp add: ex_muted_def assign_def)
  have hm: "heap ex_muted (Suc 0) = Some (job\<lparr>enabled := False\<rparr>)"
    using hp by (simp add: ex_muted_def assign_def)
  from firing [OF tm hm v] have "fire (Suc 0) ex_muted = ex_muted"
    by simp
  with firing [OF t hp v, of "''boom''" Fulfilled] show ?thesis
    by (simp add: t hp f e dn tm hm job_def)
qed

text \<open>
  \<^bold>\<open>C4\<close> (addJob on an id already present). The registry has no duplicate check and
  no \<open>DuplicateIdError\<close>: \<open>this.jobs.set(id, job)\<close> replaces the entry. At the concrete
  input below the second \<open>addJob\<close> under \<open>j1\<close> returns a new job, and afterwards \<open>getJob\<close>
  yields that new job, named \<open>second\<close>, not the one stored before.
\<close>

theorem addJob_duplicate_counterexample:
  "getJob ''j1'' dup_before = Some 0 \<and>
   fst (addJob ''j1'' ''second'' ''1h'' 1 dup_before) = 1 \<and>
   getJob ''j1'' dup_after = Some 1 \<and>
   getJob ''j1'' dup_after \<noteq> getJob ''j1'' dup_before \<and>
   map_option name (heap dup_before 0) = Some ''first'' \<and>
   map_option name (heap dup_after 1) = Some ''second''"
proof -
  have "getJob ''j1'' dup_before = Some 0" "getJob ''j1'' dup_after = Some 1"
    "fst (addJob ''j1'' ''second'' ''1h'' 1 dup_before) = 1"
    "map_option name (heap dup_before 0) = Some ''first''"
    "map_option name (heap dup_after 1) = Some ''second''"
    by code_simp+
  then show ?thesis
    by simp
qed

text \<open>
  \<^bold>\<open>C4\<close>, as the code has it. In every state reachable from the empty registry in which
  a job is stored under \<open>i\<close>, \<open>addJob i n s act\<close> raises nothing: it builds a new job
  object from its arguments (enabled, pending, no \<open>lastRun\<close>, \<open>nextRun\<close> one interval
  from now), stores it under \<open>i\<close> in place of the previous entry, at the same position
  of the map's iteration order, and returns it.
\<close>

theorem addJob_duplicate_overwrites:
  assumes "w = run cs (init t)" and "map_of (jobs w) i = Some a0"
  shows "fst (addJob i n s act w) = next_ref w \<and> next_ref w \<noteq> a0 \<and>
         getJob i (snd (addJob i n s act w)) = Some (next_ref w) \<and>
         map fst (jobs (snd (addJob i n s act w))) = map fst (jobs w) \<and>
         (\<exists>j. heap (snd (addJob i n s act w)) (next_ref w) = Some j \<and>
              jobId j = i \<and> name j = n \<and> schedule j = s \<and> action j = act \<and>
              enabled j \<and> status j = Pending \<and> lastRun j = None \<and>
              nextRun j = Some (js_add (Date_now w) (parseSchedule s)))"
proof -
  have "invariant w"
    unfolding assms(1) by (rule run_init_invariant)
  then have "wellformed w"
    by (simp add: invariant_def)
  from wellformed_stored [OF this map_of_stored [OF assms(2)]] have "next_ref w \<noteq> a0"
    by auto
  moreover have "i \<in> set (map fst (jobs w))"
    using assms(2) by (metis map_of_eq_None_iff option.distinct(1) set_map)
  ultimately show ?thesis
    by (simp add: addJob_fst addJob_jobs addJob_heap getJob_def update_conv' update_keys)
qed

theorem addJob_duplicate_overwrites_witness:
  "dup_before = run [AddJob ''j1'' ''first'' ''5m'' 0] (init 0) \<and>
   map_of (jobs dup_before) ''j1'' = Some 0 \<and>
   fst (addJob ''j1'' ''second'' ''1h'' 1 dup_before) = 1 \<and>
   getJob ''j1'' dup_after = Some 1 \<and>
   map fst (jobs dup_after) = [''j1'']"
proof -
  have r: "dup_before = run [AddJob ''j1'' ''first'' ''5m'' 0] (init 0)"
    by (simp add: dup_before_def run_def)
  have j: "jobs dup_before = [(''j1'', 0)]" "next_ref dup_before = 1"
    by code_simp+
  then have m: "map_of (jobs dup_before) ''j1'' = Some 0"
    by simp
  from addJob_duplicate_overwrites [OF r m, of "''second''" "''1h''" 1] r m j show ?thesis
    by (simp add: dup_after_def)
qed

text \<open>
  \<^bold>\<open>C5\<close> (addJob on a fresh id). When no job is stored under \<open>i\<close>, \<open>addJob i n s act\<close>
  allocates a new job object, appends it to the map under \<open>i\<close> and returns a reference to
  it. The stored job carries the four arguments, \<open>enabled = true\<close>, \<open>status = pending\<close>,
  no \<open>lastRun\<close>, and \<open>nextRun = Date.now() + parseSchedule s\<close>. A timer for the new job is
  armed, and its handle recorded in the job, exactly when the scheduler is running; no
  other timer is touched.
\<close>

theorem addJob_fresh:
  assumes "map_of (jobs w) i = None"
  shows "fst (addJob i n s act w) = next_ref w \<and>
         jobs (snd (addJob i n s act w)) = jobs w @ [(i, next_ref w)] \<and>
         getJob i (snd (addJob i n s act w)) = Some (next_ref w) \<and>
         heap (snd (addJob i n s act w)) (next_ref w) =
           Some \<lparr>jobId = i, name = n, schedule = s, action = act, enabled = True,
                 lastRun = None, nextRun = Some (js_add (Date_now w) (parseSchedule s)),
                 status = Pending,
                 intervalId = (if running w then Some (next_timeout w) else None)\<rparr> \<and>
         timers (snd (addJob i n s act w)) =
           (if running w then timers w @ [(next_timeout w, next_ref w, parseSchedule s)]
            else timers w) \<and>
         (armed (snd (addJob i n s act w)) (next_ref w) \<longleftrightarrow> running w)"
proof -
  have "getJob i (snd (addJob i n s act w)) = Some (next_ref w)"
    by (simp add: getJob_def addJob_jobs update_conv')
  moreover have "jobs (snd (addJob i n s act w)) = jobs w @ [(i, next_ref w)]"
    using assms by (simp add: addJob_jobs update_fresh)
  ultimately show ?thesis
    by (simp add: addJob_fst addJob_heap addJob_timers armed_def)
qed

theorem addJob_fresh_witness:
  "map_of (jobs ex_world) ''c'' = None \<and> running ex_world \<and>
   fst (addJob ''c'' ''C'' ''1d'' 3 ex_world) = 2 \<and>
   getJob ''c'' (snd (addJob ''c'' ''C'' ''1d'' 3 ex_world)) = Some 2 \<and>
   heap (snd (addJob ''c'' ''C'' ''1d'' 3 ex_world)) 2 =
     Some \<lparr>jobId = ''c'', name = ''C'', schedule = ''1d'', action = 3, enabled = True,
           lastRun = None, nextRun = Some (Num 86401000), status = Pending,
           intervalId = Some 2\<rparr> \<and>
   armed (snd (addJob ''c'' ''C'' ''1d'' 3 ex_world)) 2"
proof -
  have j: "jobs ex_world = [(''a'', 0), (''b'', 1)]"
    by code_simp
  have e: "running ex_world" "next_ref ex_world = 2" "next_timeout ex_world = 2"
    "Date_now ex_world = Num 1000"
    by code_simp+
  have p: "parseSchedule ''1d'' = Num 86400000" "js_add (Num 1000) (Num 86400000) = Num 86401000"
    by code_simp+
  from j have "map_of (jobs ex_world) ''c'' = None"
    by simp
  from addJob_fresh [OF this, of "''C''" "''1d''" 3] this e p show ?thesis
    by simp
qed

text \<open>
  \<^bold>\<open>C6\<close> (idempotent start). In every reachable state \<open>w\<close>: what a caller can observe
  after \<open>start(); start()\<close> (the running flag and, for each stored job in map order, its
  id, every field of the job but the opaque handle, and the periods of the timers whose
  callback is on that job) is what it observes after one \<open>start()\<close>. The same holds when
  the clock advances by \<open>d\<close> between the two calls, compared with a single \<open>start()\<close> at
  the later time. No stored job has more than one timer, in \<open>w\<close>, after one \<open>start\<close> or
  after two. A job that holds a handle after the first \<open>start\<close> has that handle cleared
  by the second, and is armed again with a new one.
\<close>

theorem start_idempotent:
  assumes "w = run cs (init t)" and "a \<in> set (jobs_values w)"
  shows "observe (start (start w)) = observe (start w) \<and>
         observe (start (advance d (start w))) = observe (start (advance d w)) \<and>
         length (timers_of a w) \<le> 1 \<and> length (timers_of a (start w)) \<le> 1 \<and>
         length (timers_of a (start (start w))) \<le> 1 \<and>
         (\<forall>j h. heap (start w) a = Some j \<and> intervalId j = Some h \<longrightarrow>
            h \<notin> fst ` set (timers (start (start w))) \<and> armed (start (start w)) a)"
proof -
  have i: "invariant w"
    unfolding assms(1) by (rule run_init_invariant)
  then have i1: "invariant (start w)"
    by (rule start_invariant)
  then have i2: "invariant (start (start w))"
    by (rule start_invariant)
  have a1: "a \<in> set (jobs_values (start w))" and a2: "a \<in> set (jobs_values (start (start w)))"
    using assms(2) by (simp_all add: start_frame)
  from observe_restart [OF i, of 0] have "observe (start (start w)) = observe (start w)"
    by (simp add: advance_zero)
  moreover note observe_restart [OF i, of d]
  moreover note timers_of_le_one [OF i assms(2)] timers_of_le_one [OF i1 a1]
    timers_of_le_one [OF i2 a2]
  moreover have "h \<notin> fst ` set (timers (start (start w))) \<and> armed (start (start w)) a"
    if "heap (start w) a = Some j" "intervalId j = Some h" for j h
    using restart_handle [OF i assms(2) that] by simp
  ultimately show ?thesis
    by blast
qed

theorem start_idempotent_witness:
  "0 \<in> set (jobs_values one_job) \<and>
   timers (start one_job) = [(0, 0, Num 300000)] \<and>
   Option.bind (heap (start one_job) 0) intervalId = Some 0 \<and>
   timers (start (start one_job)) = [(1, 0, Num 300000)] \<and>
   0 \<notin> fst ` set (timers (start (start one_job))) \<and> armed (start (start one_job)) 0 \<and>
   observe (start (start one_job)) = observe (start one_job) \<and>
   length (timers_of 0 (start (start one_job))) \<le> 1"
proof -
  have m: "0 \<in> set (jobs_values one_job)"
    by code_simp
  have t: "timers (start one_job) = [(0, 0, Num 300000)]"
    "timers (start (start one_job)) = [(Suc 0, 0, Num 300000)]"
    by code_simp+
  have "Option.bind (heap (start one_job) 0) intervalId = Some 0"
    by code_simp
  then obtain j where j: "heap (start one_job) 0 = Some j" "intervalId j = Some 0"
    by (cases "heap (start one_job) 0") auto
  from start_idempotent [OF one_job_def m, of 0] j m t show ?thesis
    by auto
qed

text \<open>
  \<^bold>\<open>C7\<close> (stop). In every reachable state, \<open>stop\<close> clears the running flag and keeps
  the map as it is. For every stored job, the object after \<open>stop\<close> is the object before
  with \<open>intervalId\<close> cleared, so \<open>id\<close>, \<open>name\<close>, \<open>schedule\<close>, \<open>action\<close>, \<open>enabled\<close>,
  \<open>status\<close>, \<open>lastRun\<close> and \<open>nextRun\<close> keep their values; the handle the job held is no
  longer active, and no active timer has a callback on the job. Objects that are not
  stored, the suspended callbacks, the clock and the console are untouched.
\<close>

theorem stop_frame:
  assumes "w = run cs (init t)" and "a \<in> set (jobs_values w)"
  shows "\<not> running (stop w) \<and> jobs (stop w) = jobs w \<and>
         (\<exists>j. heap w a = Some j \<and> heap (stop w) a = Some (j\<lparr>intervalId := None\<rparr>) \<and>
              (\<forall>h. intervalId j = Some h \<longrightarrow> h \<notin> fst ` set (timers (stop w)))) \<and>
         timers_of a (stop w) = [] \<and> \<not> armed (stop w) a \<and>
         (\<forall>b. b \<notin> set (jobs_values w) \<longrightarrow> heap (stop w) b = heap w b) \<and>
         pending (stop w) = pending w \<and> clock (stop w) = clock w \<and>
         console (stop w) = console w"
proof -
  have i: "invariant w"
    unfolding assms(1) by (rule run_init_invariant)
  have eff: "stop_eff w (jobs_values w) (set (jobs_values w)) (stop w)"
    by (rule stop_effect)
  from stop_frame_stored [OF i assms(2)] obtain j where j: "heap w a = Some j"
    "heap (stop w) a = Some (j\<lparr>intervalId := None\<rparr>)"
    "\<forall>h. intervalId j = Some h \<longrightarrow> h \<notin> fst ` set (timers (stop w))"
    "timers_of a (stop w) = []"
    by blast
  from j(2) have "\<not> armed (stop w) a"
    by (simp add: armed_def)
  moreover from eff have "\<not> running (stop w)" "jobs (stop w) = jobs w"
    "pending (stop w) = pending w" "clock (stop w) = clock w" "console (stop w) = console w"
    "\<forall>b. b \<notin> set (jobs_values w) \<longrightarrow> heap (stop w) b = heap w b"
    by (simp_all add: stop_eff_def)
  ultimately show ?thesis
    using j by blast
qed

theorem stop_frame_witness:
  "1 \<in> set (jobs_values ex_world) \<and> running ex_world \<and>
   heap ex_world 1 =
     Some \<lparr>jobId = ''b'', name = ''B'', schedule = ''2h'', action = 2, enabled = True,
           lastRun = None, nextRun = Some (Num 7201000), status = Pending,
           intervalId = Some 1\<rparr> \<and>
   \<not> running (stop ex_world) \<and>
   heap (stop ex_world) 1 =
     Some \<lparr>jobId = ''b'', name = ''B'', schedule = ''2h'', action = 2, enabled = True,
           lastRun = None, nextRun = Some (Num 7201000), status = Pending,
           intervalId = None\<rparr> \<and>
   1 \<notin> fst ` set (timers (stop ex_world)) \<and> timers_of 1 (stop ex_world) = [] \<and>
   5 \<notin> set (jobs_values ex_world) \<and> heap (stop ex_world) 5 = heap ex_world 5"
proof -
  have m: "Suc 0 \<in> set (jobs_values ex_world)"
    by code_simp
  have r: "running ex_world"
    by code_simp
  have h: "heap ex_world (Suc 0) =
     Some \<lparr>jobId = ''b'', name = ''B'', schedule = ''2h'', action = 2, enabled = True,
           lastRun = None, nextRun = Some (Num 7201000), status = Pending,
           intervalId = Some (Suc 0)\<rparr>"
    by code_simp
  have n: "5 \<notin> set (jobs_values ex_world)"
    by code_simp
  from stop_frame [OF ex_world_def m] m r h n show ?thesis
    by auto
qed

text \<open>
  \<^bold>\<open>C8\<close> (unknown ids). When no job is stored under \<open>i\<close>, \<open>removeJob\<close>, \<open>enableJob\<close> and
  \<open>disableJob\<close> return \<open>false\<close>, \<open>getJob\<close> returns \<open>undefined\<close>, and each call hands back
  the world it was given: nothing is raised and nothing is changed.
\<close>

theorem unknown_id_noop:
  assumes "map_of (jobs w) i = None"
  shows "removeJob i w = (False, w) \<and> enableJob i w = (False, w) \<and>
         disableJob i w = (False, w) \<and> getJob i w = None"
  using assms by (simp add: removeJob_def enableJob_def disableJob_def getJob_def)

theorem unknown_id_noop_witness:
  "map_of (jobs ex_world) ''zz'' = None \<and>
   removeJob ''zz'' ex_world = (False, ex_world) \<and>
   enableJob ''zz'' ex_world = (False, ex_world) \<and>
   disableJob ''zz'' ex_world = (False, ex_world) \<and> getJob ''zz'' ex_world = None"
proof -
  have "jobs ex_world = [(''a'', 0), (''b'', 1)]"
    by code_simp
  then have "map_of (jobs ex_world) ''zz'' = None"
    by simp
  with unknown_id_noop [OF this] show ?thesis
    by simp
qed


text \<open>
  \<^bold>\<open>C10\<close> (zero intervals). \<open>parseSchedule\<close> never returns a negative number (nor \<open>NaN\<close>), but it can
  return zero: a non-empty string of zeros, alone or followed by \<open>m\<close>, \<open>h\<close> or \<open>d\<close>, is in
  the grammar and yields 0 instead of the 60000 fallback. For such a schedule the job that
  \<open>addJob\<close> stores has \<open>nextRun\<close> equal to the current time, whether or not the scheduler
  is running.
\<close>

theorem parseSchedule_zero:
  "nonnegative (parseSchedule s) \<and>
   parseSchedule ''0'' = Num 0 \<and> parseSchedule ''0m'' = Num 0 \<and>
   parseSchedule ''0h'' = Num 0 \<and> parseSchedule ''0d'' = Num 0 \<and>
   (zs \<noteq> [] \<and> set zs \<subseteq> {CHR ''0''} \<and> u \<in> {'''', ''m'', ''h'', ''d''} \<longrightarrow>
      in_grammar (zs @ u) \<and> parseSchedule (zs @ u) = Num 0 \<and>
      Option.bind (heap (snd (addJob i n (zs @ u) act w)) (fst (addJob i n (zs @ u) act w)))
        nextRun = Some (Date_now w))"
proof -
  have z: "parseSchedule ''0'' = Num 0" "parseSchedule ''0m'' = Num 0"
    "parseSchedule ''0h'' = Num 0" "parseSchedule ''0d'' = Num 0"
    by code_simp+
  have g: "in_grammar (zs @ u) \<and> parseSchedule (zs @ u) = Num 0 \<and>
      Option.bind (heap (snd (addJob i n (zs @ u) act w)) (fst (addJob i n (zs @ u) act w)))
        nextRun = Some (Date_now w)"
    if zs: "zs \<noteq> []" "set zs \<subseteq> {CHR ''0''}" and u: "u \<in> {'''', ''m'', ''h'', ''d''}"
  proof -
    from zs have d: "digits zs"
      by (auto simp: digits_def list_all_iff isDigit_def)
    from zs(2) have v: "decimal zs = 0"
      by (rule decimal_zeros)
    from d u have "in_grammar (zs @ u)"
      by (auto simp: in_grammar_def)
    moreover have p: "parseSchedule (zs @ u) = Num 0"
    proof (cases "u = []")
      case True
      with d v show ?thesis
        by (simp add: parseSchedule_digits)
    next
      case False
      with u obtain c where c: "u = [c]" "c \<in> set ''mhd''"
        by auto
      with d v show ?thesis
        by (simp add: parseSchedule_digits_unit)
    qed
    ultimately show ?thesis
      by (simp add: addJob_fst addJob_heap Date_now_def js_add_zero)
  qed
  from z g parseSchedule_nonneg [of s] show ?thesis
    by blast
qed

theorem parseSchedule_zero_witness:
  "''00'' \<noteq> [] \<and> set ''00'' \<subseteq> {CHR ''0''} \<and> ''h'' \<in> {'''', ''m'', ''h'', ''d''} \<and>
   in_grammar ''00h'' \<and> parseSchedule ''00h'' = Num 0 \<and>
   Option.bind
     (heap (snd (addJob ''z'' ''Z'' ''00h'' (0::nat) (init 5)))
        (fst (addJob ''z'' ''Z'' ''00h'' (0::nat) (init 5))))
     nextRun = Some (Num 5)"
  using parseSchedule_zero [of "''00h''" "''00''" "''h''" "''z''" "''Z''" "0::nat" "init 5"]
  by (simp add: Date_now_def init_def round_double_small)

end
